theory Spec2Isabelle
  imports Complex_Main "HOL-Library.Word"
begin

section \<open>Values of the host platform\<close>

text \<open>
  The program is a JavaScript class, \<open>BinaryMessageParser\<close>, in
  \<^verbatim>\<open>binary-message-parser.js\<close>. A Node \<open>Buffer\<close> is a byte array of fixed
  length: a list of 8-bit words whose length is the buffer's capacity. The numbers of
  the program (sizes, counts, offsets) are modelled as \<open>int\<close>: they are integers
  whenever the extractor returns integers, and they may be negative (a signed header).
  The one number that comes straight from the caller, the \<open>initialBufferSize\<close> of
  the constructor, is any JavaScript number (\<open>js_number\<close> below).
  Exceptions are values: \<open>Inl\<close> of a sum is a thrown error.
\<close>

type_synonym byte = "8 word"
type_synonym buffer = "byte list"

datatype js_error = TypeError | RangeError

text \<open>
  \<open>buf.slice(start, end)\<close>: an index below zero counts from the end, every index is
  clamped to the buffer, and an end before the start gives the empty buffer.
\<close>

definition adjustOffset :: "int \<Rightarrow> nat \<Rightarrow> nat" where
  "adjustOffset i len = (if i < 0 then nat (i + int len) else min (nat i) len)"

definition buffer_slice :: "buffer \<Rightarrow> int \<Rightarrow> int \<Rightarrow> buffer" where
  "buffer_slice b start end =
     (let s = adjustOffset start (length b); e = adjustOffset end (length b)
      in take (e - s) (drop s b))"

text \<open>
  A JavaScript number: a finite value, \<open>NaN\<close> or an infinity. \<open>number_le_zero\<close>
  is the comparison \<open>x <= 0\<close>, which is false for \<open>NaN\<close>.
\<close>

datatype js_number = Finite real | NaN | PosInfinity | NegInfinity

definition number_le_zero :: "js_number \<Rightarrow> bool" where
  "number_le_zero x =
     (case x of
        Finite r \<Rightarrow> r \<le> 0
      | NaN \<Rightarrow> False
      | PosInfinity \<Rightarrow> False
      | NegInfinity \<Rightarrow> True)"

text \<open>
  \<open>Buffer.alloc(size)\<close> gives a zero-filled buffer and throws \<open>RangeError\<close>
  unless \<open>0 <= size <= kMaxLength\<close> (so also for \<open>NaN\<close> and the infinities);
  a fraction of the size is dropped. \<open>kMaxLength\<close> is the platform's
  \<open>buffer.constants.MAX_LENGTH\<close>, here that of a current 64-bit Node. The
  exhaustion of memory below that length is outside this model.

  \<open>buffer_alloc\<close> is the allocation for an integer size that is not above
  \<open>kMaxLength\<close>: the methods of the parser allocate no more bytes than a buffer
  they were handed holds. \<open>buffer_alloc_number\<close> is \<open>Buffer.alloc\<close> on any
  number, as the constructor calls it with the number of its caller.
\<close>

definition kMaxLength :: int where
  "kMaxLength = 2 ^ 53 - 1"

definition buffer_alloc :: "int \<Rightarrow> js_error + buffer" where
  "buffer_alloc n = (if n < 0 then Inl RangeError else Inr (replicate (nat n) 0))"

definition buffer_alloc_number :: "js_number \<Rightarrow> js_error + buffer" where
  "buffer_alloc_number x =
     (case x of
        Finite r \<Rightarrow>
          if r < 0 \<or> real_of_int kMaxLength < r then Inl RangeError
          else buffer_alloc \<lfloor>r\<rfloor>
      | NaN \<Rightarrow> Inl RangeError
      | PosInfinity \<Rightarrow> Inl RangeError
      | NegInfinity \<Rightarrow> Inl RangeError)"

text \<open>
  \<open>source.copy(target, targetStart, sourceStart, sourceEnd)\<close>: a negative index
  or a start beyond the source throws; an empty range copies nothing; otherwise as
  many bytes are copied as the range, the source and the target all have.
  The result is the target after the call.
\<close>

definition buffer_copy :: "buffer \<Rightarrow> buffer \<Rightarrow> int \<Rightarrow> int \<Rightarrow> int \<Rightarrow> js_error + buffer" where
  "buffer_copy source target targetStart sourceStart sourceEnd =
     (if targetStart < 0 \<or> sourceStart < 0 \<or> int (length source) < sourceStart
         \<or> sourceEnd < 0
      then Inl RangeError
      else if int (length target) \<le> targetStart \<or> sourceEnd \<le> sourceStart
      then Inr target
      else
        let nb = min (min (nat (sourceEnd - sourceStart)) (length target - nat targetStart))
                     (length source - nat sourceStart)
        in Inr (take (nat targetStart) target
                @ take nb (drop (nat sourceStart) source)
                @ drop (nat targetStart + nb) target))"

section \<open>The header extractor\<close>

text \<open>
  The constructor receives any JavaScript value: a primitive (\<open>undefined\<close>, a
  number, a string), \<open>null\<close>, a function or an object. Functions and objects carry
  members; each of the three members may be absent: a member is \<open>None\<close> when it is
  missing or is not of the type the constructor asks for (\<open>number\<close>,
  \<open>function\<close>, \<open>function\<close>). Functions and objects live in a store, so that two
  holders of one reference see one object.
\<close>

record js_extractor =
  member_headerByteCount :: "int option"
  member_extractMessageSize :: "(buffer \<Rightarrow> js_error + int) option"
  member_validateMessageSize :: "(int \<Rightarrow> bool) option"

type_synonym ref = nat
type_synonym store = "ref \<Rightarrow> js_extractor"

datatype js_value = Primitive | Null | Function ref | Object ref

text \<open>
  The extractor as the methods of the parser read it, once all members are there.
  \<open>validateMessageSize\<close> is compared with \<open>true\<close> by the parser, so its result
  is a truth value; \<open>extractMessageSize\<close> may throw (the readers of \<open>Buffer\<close> do on
  a short buffer).
\<close>

record header_extractor =
  headerByteCount :: int
  extractMessageSize :: "buffer \<Rightarrow> js_error + int"
  validateMessageSize :: "int \<Rightarrow> bool"

definition as_extractor :: "js_extractor \<Rightarrow> header_extractor option" where
  "as_extractor x =
     (case (member_headerByteCount x, member_extractMessageSize x, member_validateMessageSize x) of
        (Some n, Some f, Some v) \<Rightarrow>
          Some \<lparr>headerByteCount = n, extractMessageSize = f, validateMessageSize = v\<rparr>
      | _ \<Rightarrow> None)"

definition as_object :: "header_extractor \<Rightarrow> js_extractor" where
  "as_object E =
     \<lparr>member_headerByteCount = Some (headerByteCount E),
      member_extractMessageSize = Some (extractMessageSize E),
      member_validateMessageSize = Some (validateMessageSize E)\<rparr>"

section \<open>The parser\<close>

datatype parser_error = ERR_INVALID_MSG_SIZE

record parser =
  headerExtractor :: ref
  unfinishedMessageBuffer :: buffer
  unfinishedMessageSize :: int
  expectedMessageSize :: int
  bMessageHeaderExtracted :: bool
  bShutdown :: bool
  lastError :: "parser_error option"

text \<open>
  The constructor. The store is returned in every case: the member
  \<open>validateMessageSize\<close> is installed before the buffer size is checked, so the
  object is changed also when the constructor then throws \<open>RangeError\<close>.
  \<open>initialBufferSize\<close> is \<open>None\<close> when the argument is not a number. The
  first test lets only a value of type \<open>object\<close> pass (a function is of type
  \<open>function\<close>); reading a member of \<open>null\<close> throws \<open>TypeError\<close> as well.
\<close>

definition constructor ::
  "store \<Rightarrow> js_value \<Rightarrow> js_number option \<Rightarrow> store \<times> (js_error + parser)" where
  "constructor h extractorArg initialBufferSize =
     (case extractorArg of
        Primitive \<Rightarrow> (h, Inl TypeError)
      | Function r \<Rightarrow> (h, Inl TypeError)
      | Null \<Rightarrow> (h, Inl TypeError)
      | Object r \<Rightarrow>
          if member_headerByteCount (h r) = None \<or> member_extractMessageSize (h r) = None
          then (h, Inl TypeError)
          else
            let h' = (if member_validateMessageSize (h r) = None
                      then h(r := (h r)\<lparr>member_validateMessageSize := Some (\<lambda>_. True)\<rparr>)
                      else h);
                n = (case initialBufferSize of None \<Rightarrow> Finite 10240 | Some n \<Rightarrow> n)
            in if number_le_zero n then (h', Inl RangeError)
               else (case buffer_alloc_number n of
                       Inl e \<Rightarrow> (h', Inl e)
                     | Inr b \<Rightarrow>
                         (h', Inr \<lparr>headerExtractor = r,
                                   unfinishedMessageBuffer = b,
                                   unfinishedMessageSize = 0,
                                   expectedMessageSize = 0,
                                   bMessageHeaderExtracted = False,
                                   bShutdown = False,
                                   lastError = None\<rparr>)))"

text \<open>
  The extractor a parser is bound to, read through its reference. The methods below
  read \<open>this.headerExtractor\<close> only through its three members; they take the
  extractor as their argument \<open>E\<close>.
\<close>

definition bound_extractor :: "store \<Rightarrow> parser \<Rightarrow> header_extractor option" where
  "bound_extractor h p = as_extractor (h (headerExtractor p))"

definition isShutdown :: "parser \<Rightarrow> bool" where
  "isShutdown p = bShutdown p"

definition isFinished :: "parser \<Rightarrow> bool" where
  "isFinished p = (unfinishedMessageSize p = 0)"

text \<open>
  The closures handed to \<open>setImmediate\<close>. The one scheduled by
  \<open>_continueUnfinishedMessage\<close> reads \<open>this.expectedMessageSize\<close> when it runs,
  not when it is scheduled.
\<close>

datatype callback = EmitMessage buffer | ErrorWithSize int | ErrorWithExpectedSize

datatype notification = Message buffer | Error parser_error int

datatype 'a completion = Normal 'a | Thrown js_error

definition reset :: "parser \<Rightarrow> parser" where
  "reset p = p\<lparr>bMessageHeaderExtracted := False,
               expectedMessageSize := 0,
               unfinishedMessageSize := 0\<rparr>"

definition appendToUnfinishedMessage ::
  "parser \<Rightarrow> buffer \<Rightarrow> int \<Rightarrow> int \<Rightarrow> js_error + parser" where
  "appendToUnfinishedMessage p dataBuffer offset count =
     (let availableSpace = int (length (unfinishedMessageBuffer p)) - unfinishedMessageSize p
      in if availableSpace < count
         then
           let significantUnfinBuffer =
                 buffer_slice (unfinishedMessageBuffer p) 0 (unfinishedMessageSize p);
               bufferToAppend = buffer_slice dataBuffer offset (offset + count)
           in Inr (p\<lparr>unfinishedMessageBuffer := significantUnfinBuffer @ bufferToAppend,
                      unfinishedMessageSize := unfinishedMessageSize p + count\<rparr>)
         else
           (case buffer_copy dataBuffer (unfinishedMessageBuffer p)
                   (unfinishedMessageSize p) offset (offset + count) of
              Inl e \<Rightarrow> Inl e
            | Inr b \<Rightarrow>
                Inr (p\<lparr>unfinishedMessageBuffer := b,
                        unfinishedMessageSize := unfinishedMessageSize p + count\<rparr>)))"

text \<open>
  \<open>_notifyMessageReceived\<close> resets the parser first; an exception of the allocation
  or of the copy leaves the parser reset and schedules nothing.
\<close>

definition notifyMessageReceived ::
  "parser \<Rightarrow> buffer \<Rightarrow> int \<Rightarrow> int \<Rightarrow> unit completion \<times> parser \<times> callback list" where
  "notifyMessageReceived p dataBuffer offset sz =
     (let p' = reset p
      in case buffer_alloc sz of
           Inl e \<Rightarrow> (Thrown e, p', [])
         | Inr message0 \<Rightarrow>
             (case buffer_copy dataBuffer message0 0 offset (offset + sz) of
                Inl e \<Rightarrow> (Thrown e, p', [])
              | Inr message \<Rightarrow> (Normal (), p', [EmitMessage message])))"

definition extractMessageSize_at ::
  "header_extractor \<Rightarrow> buffer \<Rightarrow> int \<Rightarrow> js_error + int" where
  "extractMessageSize_at E dataBuffer offset =
     (let idxEnd = offset + headerByteCount E;
          slice = buffer_slice dataBuffer offset idxEnd
      in extractMessageSize E slice)"

definition startNewMessage ::
  "header_extractor \<Rightarrow> parser \<Rightarrow> buffer \<Rightarrow> int \<Rightarrow> int completion \<times> parser \<times> callback list" where
  "startNewMessage E p dataBuffer offset =
     (let availableBytesCount = int (length dataBuffer) - offset
      in if availableBytesCount < headerByteCount E
         then
           (case appendToUnfinishedMessage p dataBuffer offset availableBytesCount of
              Inl e \<Rightarrow> (Thrown e, p, [])
            | Inr p1 \<Rightarrow>
                (Normal availableBytesCount,
                 p1\<lparr>expectedMessageSize := headerByteCount E,
                    bMessageHeaderExtracted := False\<rparr>, []))
         else
           (case extractMessageSize_at E dataBuffer offset of
              Inl e \<Rightarrow> (Thrown e, p, [])
            | Inr messageSize \<Rightarrow>
                if \<not> validateMessageSize E messageSize
                then (Normal (- 1), p, [ErrorWithSize messageSize])
                else if availableBytesCount \<ge> messageSize
                then
                  (case notifyMessageReceived p dataBuffer offset messageSize of
                     (Thrown e, p1, cs) \<Rightarrow> (Thrown e, p1, cs)
                   | (Normal _, p1, cs) \<Rightarrow> (Normal messageSize, p1, cs))
                else
                  (case appendToUnfinishedMessage p dataBuffer offset availableBytesCount of
                     Inl e \<Rightarrow> (Thrown e, p, [])
                   | Inr p1 \<Rightarrow>
                       (Normal availableBytesCount,
                        p1\<lparr>expectedMessageSize := messageSize,
                           bMessageHeaderExtracted := True\<rparr>, []))))"

definition continueUnfinishedMessage ::
  "header_extractor \<Rightarrow> parser \<Rightarrow> buffer \<Rightarrow> int \<Rightarrow> int completion \<times> parser \<times> callback list" where
  "continueUnfinishedMessage E p dataBuffer offset =
     (let missingBytesCount = expectedMessageSize p - unfinishedMessageSize p;
          availableBytesCount = int (length dataBuffer) - offset
      in if availableBytesCount < missingBytesCount
         then
           (case appendToUnfinishedMessage p dataBuffer offset availableBytesCount of
              Inl e \<Rightarrow> (Thrown e, p, [])
            | Inr p1 \<Rightarrow> (Normal availableBytesCount, p1, []))
         else
           (case appendToUnfinishedMessage p dataBuffer offset missingBytesCount of
              Inl e \<Rightarrow> (Thrown e, p, [])
            | Inr p1 \<Rightarrow>
                if bMessageHeaderExtracted p1
                then
                  (case notifyMessageReceived p1 (unfinishedMessageBuffer p1) 0
                          (expectedMessageSize p1) of
                     (Thrown e, p2, cs) \<Rightarrow> (Thrown e, p2, cs)
                   | (Normal _, p2, cs) \<Rightarrow> (Normal missingBytesCount, p2, cs))
                else
                  (case extractMessageSize_at E (unfinishedMessageBuffer p1) 0 of
                     Inl e \<Rightarrow> (Thrown e, p1, [])
                   | Inr messageSize \<Rightarrow>
                       let p2 = p1\<lparr>expectedMessageSize := messageSize,
                                   bMessageHeaderExtracted := True\<rparr>
                       in if \<not> validateMessageSize E (expectedMessageSize p2)
                          then (Normal (- 1), p2, [ErrorWithExpectedSize])
                          else (Normal missingBytesCount, p2, []))))"

text \<open>
  One pass through the body of the \<open>while\<close> loop of \<open>parseBytes\<close>, on the loop
  state (the offset, the parser, the closures scheduled so far): \<open>Inl\<close> when
  \<open>parseBytes\<close> returns or throws there, \<open>Inr\<close> the state for the next test of the
  loop condition.
\<close>

type_synonym loop_state = "int \<times> parser \<times> callback list"
type_synonym outcome = "bool completion \<times> parser \<times> callback list"

definition whileBody ::
  "header_extractor \<Rightarrow> buffer \<Rightarrow> loop_state \<Rightarrow> outcome + loop_state" where
  "whileBody E bytes s =
     (case s of (offset, p, q) \<Rightarrow>
        if offset < int (length bytes)
        then
          (case (if isFinished p then startNewMessage E p bytes offset
                 else continueUnfinishedMessage E p bytes offset) of
             (Thrown e, p', cs) \<Rightarrow> Inl (Thrown e, p', q @ cs)
           | (Normal bytesParsed, p', cs) \<Rightarrow>
               if bytesParsed < 0
               then Inl (Normal False, p'\<lparr>bShutdown := True\<rparr>, q @ cs)
               else Inr (offset + bytesParsed, p', q @ cs))
        else Inl (Normal True, p, q))"

text \<open>
  The loop may run forever, so it is a partial function: \<open>None\<close> is "does not return".
\<close>

partial_function (option) drain ::
  "header_extractor \<Rightarrow> buffer \<Rightarrow> loop_state \<Rightarrow> outcome option" where
  "drain E bytes s =
     (case whileBody E bytes s of
        Inl r \<Rightarrow> Some r
      | Inr s' \<Rightarrow> drain E bytes s')"

declare drain.simps [code]

text \<open>\<open>parseBytes\<close> on a \<open>Buffer\<close> argument (no conversion by \<open>Buffer.from\<close>).\<close>

definition parseBytes :: "header_extractor \<Rightarrow> parser \<Rightarrow> buffer \<Rightarrow> outcome option" where
  "parseBytes E p bytes =
     (if isShutdown p then Some (Normal False, p, [])
      else drain E bytes (0, p, []))"

text \<open>
  The caller's loop \<^verbatim>\<open>for (let part of parts) parser.parseBytes(part)\<close>: the chunks are
  fed in order, the return values are dropped, an exception ends the loop. The result is
  the parser after the last call and the closures scheduled by all the calls, in order.
\<close>

fun parseChunks ::
  "header_extractor \<Rightarrow> parser \<Rightarrow> buffer list \<Rightarrow> (parser \<times> callback list) option" where
  "parseChunks E p [] = Some (p, [])"
| "parseChunks E p (c # cs) =
     (case parseBytes E p c of
        None \<Rightarrow> None
      | Some (Thrown e, p', q) \<Rightarrow> Some (p', q)
      | Some (Normal r, p', q) \<Rightarrow>
          (case parseChunks E p' cs of
             None \<Rightarrow> None
           | Some (p'', q') \<Rightarrow> Some (p'', q @ q')))"

text \<open>
  Running a scheduled closure: \<open>emit('message', message)\<close>, or \<open>_error\<close> (here \<open>emitError\<close>), which
  records \<open>lastError\<close> and emits \<open>error\<close> with the size as its context.
\<close>

definition emitError :: "parser \<Rightarrow> parser_error \<Rightarrow> int \<Rightarrow> parser \<times> notification" where
  "emitError p err sz = (p\<lparr>lastError := Some err\<rparr>, Error ERR_INVALID_MSG_SIZE sz)"

definition runCallback :: "parser \<Rightarrow> callback \<Rightarrow> parser \<times> notification" where
  "runCallback p c =
     (case c of
        EmitMessage message \<Rightarrow> (p, Message message)
      | ErrorWithSize messageSize \<Rightarrow> emitError p ERR_INVALID_MSG_SIZE messageSize
      | ErrorWithExpectedSize \<Rightarrow> emitError p ERR_INVALID_MSG_SIZE (expectedMessageSize p))"

text \<open>
  \<open>_write\<close> (here \<open>streamWrite\<close>), the sink of a stream: the calls of \<open>done\<close> it makes, in order. The
  argument of \<open>done\<close> is \<open>lastError\<close>, or a new unknown error when there is none.
\<close>

datatype done_call = Done | DoneWithError "parser_error option"

definition streamWrite ::
  "header_extractor \<Rightarrow> parser \<Rightarrow> buffer \<Rightarrow>
     (done_call list completion \<times> parser \<times> callback list) option" where
  "streamWrite E p chunk =
     (case parseBytes E p chunk of
        None \<Rightarrow> None
      | Some (Thrown e, p', q) \<Rightarrow> Some (Thrown e, p', q)
      | Some (Normal r, p', q) \<Rightarrow>
          Some (Normal (if r \<noteq> True then [DoneWithError (lastError p'), Done] else [Done]),
                p', q))"

text \<open>
  Everything that can be done with a constructed parser: the state after one operation
  and the closures the operation schedules, \<open>None\<close> when the operation does not
  return.
\<close>

datatype operation =
  ParseBytes buffer | Write buffer | RunCallback callback | IsShutdown | IsFinished

definition perform ::
  "header_extractor \<Rightarrow> parser \<Rightarrow> operation \<Rightarrow> (parser \<times> callback list) option" where
  "perform E p op =
     (case op of
        ParseBytes bytes \<Rightarrow> map_option (\<lambda>(r, p', q). (p', q)) (parseBytes E p bytes)
      | Write chunk \<Rightarrow> map_option (\<lambda>(r, p', q). (p', q)) (streamWrite E p chunk)
      | RunCallback c \<Rightarrow> Some (fst (runCallback p c), [])
      | IsShutdown \<Rightarrow> Some (p, [])
      | IsFinished \<Rightarrow> Some (p, []))"

fun performAll ::
  "header_extractor \<Rightarrow> parser \<Rightarrow> operation list \<Rightarrow> (parser \<times> callback list) option" where
  "performAll E p [] = Some (p, [])"
| "performAll E p (op # ops) =
     (case perform E p op of
        None \<Rightarrow> None
      | Some (p', q) \<Rightarrow>
          (case performAll E p' ops of
             None \<Rightarrow> None
           | Some (p'', q') \<Rightarrow> Some (p'', q @ q')))"

section \<open>The standard extractors\<close>

text \<open>
  The readers of \<open>Buffer\<close>: \<open>buf.readInt16BE(offset)\<close> and the like read a
  two's-complement or unsigned integer of the named width and byte order, and throw
  when the buffer has too few bytes at the offset.
\<close>

definition read_bytes :: "buffer \<Rightarrow> int \<Rightarrow> nat \<Rightarrow> js_error + byte list" where
  "read_bytes b offset n =
     (if 0 \<le> offset \<and> offset + int n \<le> int (length b)
      then Inr (take n (drop (nat offset) b)) else Inl RangeError)"

definition readUInt8 :: "buffer \<Rightarrow> int \<Rightarrow> js_error + int" where
  "readUInt8 b offset = map_sum id (\<lambda>bs. uint (word_rcat bs :: 8 word)) (read_bytes b offset 1)"

definition readInt8 :: "buffer \<Rightarrow> int \<Rightarrow> js_error + int" where
  "readInt8 b offset = map_sum id (\<lambda>bs. sint (word_rcat bs :: 8 word)) (read_bytes b offset 1)"

definition readUInt16BE :: "buffer \<Rightarrow> int \<Rightarrow> js_error + int" where
  "readUInt16BE b offset = map_sum id (\<lambda>bs. uint (word_rcat bs :: 16 word)) (read_bytes b offset 2)"

definition readInt16BE :: "buffer \<Rightarrow> int \<Rightarrow> js_error + int" where
  "readInt16BE b offset = map_sum id (\<lambda>bs. sint (word_rcat bs :: 16 word)) (read_bytes b offset 2)"

definition readUInt16LE :: "buffer \<Rightarrow> int \<Rightarrow> js_error + int" where
  "readUInt16LE b offset =
     map_sum id (\<lambda>bs. uint (word_rcat (rev bs) :: 16 word)) (read_bytes b offset 2)"

definition readInt16LE :: "buffer \<Rightarrow> int \<Rightarrow> js_error + int" where
  "readInt16LE b offset =
     map_sum id (\<lambda>bs. sint (word_rcat (rev bs) :: 16 word)) (read_bytes b offset 2)"

definition readUInt32BE :: "buffer \<Rightarrow> int \<Rightarrow> js_error + int" where
  "readUInt32BE b offset = map_sum id (\<lambda>bs. uint (word_rcat bs :: 32 word)) (read_bytes b offset 4)"

definition readInt32BE :: "buffer \<Rightarrow> int \<Rightarrow> js_error + int" where
  "readInt32BE b offset = map_sum id (\<lambda>bs. sint (word_rcat bs :: 32 word)) (read_bytes b offset 4)"

definition readUInt32LE :: "buffer \<Rightarrow> int \<Rightarrow> js_error + int" where
  "readUInt32LE b offset =
     map_sum id (\<lambda>bs. uint (word_rcat (rev bs) :: 32 word)) (read_bytes b offset 4)"

definition readInt32LE :: "buffer \<Rightarrow> int \<Rightarrow> js_error + int" where
  "readInt32LE b offset =
     map_sum id (\<lambda>bs. sint (word_rcat (rev bs) :: 32 word)) (read_bytes b offset 4)"

text \<open>\<open>buffer[methodName]\<close>: the method of that name, if \<open>Buffer\<close> has one.\<close>

definition buffer_method :: "string \<Rightarrow> (buffer \<Rightarrow> int \<Rightarrow> js_error + int) option" where
  "buffer_method methodName =
     (if methodName = ''readInt8'' then Some readInt8
      else if methodName = ''readUInt8'' then Some readUInt8
      else if methodName = ''readInt16LE'' then Some readInt16LE
      else if methodName = ''readUInt16LE'' then Some readUInt16LE
      else if methodName = ''readInt16BE'' then Some readInt16BE
      else if methodName = ''readUInt16BE'' then Some readUInt16BE
      else if methodName = ''readInt32LE'' then Some readInt32LE
      else if methodName = ''readUInt32LE'' then Some readUInt32LE
      else if methodName = ''readInt32BE'' then Some readInt32BE
      else if methodName = ''readUInt32BE'' then Some readUInt32BE
      else None)"

definition createPODExtractor :: "int \<Rightarrow> string \<Rightarrow> header_extractor" where
  "createPODExtractor headerByteCount' methodName =
     \<lparr>headerByteCount = headerByteCount',
      extractMessageSize =
        (\<lambda>buffer. case buffer_method methodName of
                     None \<Rightarrow> Inl TypeError
                   | Some method \<Rightarrow> method buffer 0),
      validateMessageSize = (\<lambda>sz. sz \<ge> headerByteCount')\<rparr>"

definition HeaderExtractorInt8 :: header_extractor where
  "HeaderExtractorInt8 = createPODExtractor 1 ''readInt8''"

definition HeaderExtractorUInt8 :: header_extractor where
  "HeaderExtractorUInt8 = createPODExtractor 1 ''readUInt8''"

definition HeaderExtractorInt16LE :: header_extractor where
  "HeaderExtractorInt16LE = createPODExtractor 2 ''readInt16LE''"

definition HeaderExtractorUInt16LE :: header_extractor where
  "HeaderExtractorUInt16LE = createPODExtractor 2 ''readUInt16LE''"

definition HeaderExtractorInt16BE :: header_extractor where
  "HeaderExtractorInt16BE = createPODExtractor 2 ''readInt16BE''"

definition HeaderExtractorUInt16BE :: header_extractor where
  "HeaderExtractorUInt16BE = createPODExtractor 2 ''readUInt16BE''"

definition HeaderExtractorInt32LE :: header_extractor where
  "HeaderExtractorInt32LE = createPODExtractor 4 ''readInt32LE''"

definition HeaderExtractorUInt32LE :: header_extractor where
  "HeaderExtractorUInt32LE = createPODExtractor 4 ''readUInt32LE''"

definition HeaderExtractorInt32BE :: header_extractor where
  "HeaderExtractorInt32BE = createPODExtractor 4 ''readInt32BE''"

definition HeaderExtractorUInt32BE :: header_extractor where
  "HeaderExtractorUInt32BE = createPODExtractor 4 ''readUInt32BE''"

section \<open>Notions of the specification\<close>


definition size_in_range :: "js_number \<Rightarrow> bool" where
  "size_in_range x =
     (case x of
        Finite r \<Rightarrow> 0 < r \<and> r \<le> real_of_int kMaxLength
      | _ \<Rightarrow> False)"

definition well_formed_extractor :: "store \<Rightarrow> js_value \<Rightarrow> bool" where
  "well_formed_extractor h v =
     (case v of
        Object r \<Rightarrow>
          member_headerByteCount (h r) \<noteq> None \<and> member_extractMessageSize (h r) \<noteq> None
      | _ \<Rightarrow> False)"

text \<open>
  The answer, on the size \<open>s\<close>, of the validator that a parser constructed from the
  value \<open>v\<close> uses; \<open>None\<close> when the constructor throws.
\<close>

definition validatorInUse ::
  "store \<Rightarrow> js_value \<Rightarrow> js_number option \<Rightarrow> int \<Rightarrow> bool option" where
  "validatorInUse h v n s =
     (case constructor h v n of
        (h', Inr p) \<Rightarrow>
          (case bound_extractor h' p of
             Some E \<Rightarrow> Some (validateMessageSize E s)
           | None \<Rightarrow> None)
      | (h', Inl e) \<Rightarrow> None)"

text \<open>An extractor object with the members of Int32BE, without a validator.\<close>

definition bareInt32BE :: js_extractor where
  "bareInt32BE = (as_object HeaderExtractorInt32BE)\<lparr>member_validateMessageSize := None\<rparr>"

text \<open>The parser a successful constructor returns, with a buffer of \<open>n\<close> bytes.\<close>

definition initial_parser :: "ref \<Rightarrow> nat \<Rightarrow> parser" where
  "initial_parser r n =
     \<lparr>headerExtractor = r,
      unfinishedMessageBuffer = replicate n 0,
      unfinishedMessageSize = 0,
      expectedMessageSize = 0,
      bMessageHeaderExtracted = False,
      bShutdown = False,
      lastError = None\<rparr>"

text \<open>
  The carry-over bytes: the valid part of the buffer of the unfinished message. The
  buffer is in order when the count of carried bytes lies within it.
\<close>

definition carried :: "parser \<Rightarrow> buffer" where
  "carried p = take (nat (unfinishedMessageSize p)) (unfinishedMessageBuffer p)"

definition carry_ok :: "parser \<Rightarrow> bool" where
  "carry_ok p = (0 \<le> unfinishedMessageSize p
      \<and> unfinishedMessageSize p \<le> int (length (unfinishedMessageBuffer p)))"

text \<open>
  A message of the extractor \<open>E\<close>: a byte sequence that has a whole header, whose
  header declares the length of the sequence, and that length passes validation.
\<close>

definition valid_message :: "header_extractor \<Rightarrow> buffer \<Rightarrow> bool" where
  "valid_message E M =
     (headerByteCount E \<le> int (length M)
      \<and> extractMessageSize E (take (nat (headerByteCount E)) M) = Inr (int (length M))
      \<and> validateMessageSize E (int (length M)))"

text \<open>The notifications the listeners get when the scheduled closures run.\<close>

definition notifications :: "callback list \<Rightarrow> parser \<Rightarrow> notification list" where
  "notifications cs p = map (\<lambda>c. snd (runCallback p c)) cs"

text \<open>
  The states of the loop of one call of \<open>parseBytes\<close>: \<open>reach E bytes s s'\<close> when
  the loop, started in \<open>s\<close>, comes to test its condition in \<open>s'\<close>.
\<close>

inductive reach :: "header_extractor \<Rightarrow> buffer \<Rightarrow> loop_state \<Rightarrow> loop_state \<Rightarrow> bool"
  for E :: header_extractor and bytes :: buffer where
  reach_refl: "reach E bytes s s"
| reach_step: "whileBody E bytes s = Inr s' \<Longrightarrow> reach E bytes s' s'' \<Longrightarrow> reach E bytes s s''"

code_pred reach .

text \<open>
  A measure of the loop: the bytes left in the chunk, then the phase of the parser
  (waiting for a header, waiting for a body, finished).
\<close>

definition phase :: "parser \<Rightarrow> nat" where
  "phase p = (if isFinished p then 0 else if bMessageHeaderExtracted p then 1 else 2)"

definition loop_measure :: "buffer \<Rightarrow> loop_state \<Rightarrow> nat" where
  "loop_measure bytes s =
     (case s of (offset, p, q) \<Rightarrow> 3 * nat (int (length bytes) - offset) + phase p)"

text \<open>The extractor of Int32BE with the validator the constructor installs.\<close>

definition defaultedInt32BE :: header_extractor where
  "defaultedInt32BE = HeaderExtractorInt32BE\<lparr>validateMessageSize := (\<lambda>_. True)\<rparr>"

text \<open>
  The size that the pass of the loop at this offset extracts and the validator rejects,
  if there is one: in \<open>_startNewMessage\<close> from a header read in place, in
  \<open>_continueUnfinishedMessage\<close> from a header completed in the carry-over buffer.
\<close>

definition rejectedSize :: "header_extractor \<Rightarrow> parser \<Rightarrow> buffer \<Rightarrow> int \<Rightarrow> int option" where
  "rejectedSize E p dataBuffer offset =
     (if isFinished p
      then
        (if int (length dataBuffer) - offset < headerByteCount E then None
         else
           (case extractMessageSize_at E dataBuffer offset of
              Inl e \<Rightarrow> None
            | Inr messageSize \<Rightarrow>
                if validateMessageSize E messageSize then None else Some messageSize))
      else
        (if int (length dataBuffer) - offset < expectedMessageSize p - unfinishedMessageSize p
         then None
         else
           (case appendToUnfinishedMessage p dataBuffer offset
                   (expectedMessageSize p - unfinishedMessageSize p) of
              Inl e \<Rightarrow> None
            | Inr p1 \<Rightarrow>
                if bMessageHeaderExtracted p1 then None
                else
                  (case extractMessageSize_at E (unfinishedMessageBuffer p1) 0 of
                     Inl e \<Rightarrow> None
                   | Inr messageSize \<Rightarrow>
                       if validateMessageSize E messageSize then None else Some messageSize))))"

text \<open>
  A parser that holds the first \<open>k\<close> bytes of the message \<open>M\<close>, and nothing else,
  in a buffer that was \<open>cap\<close> bytes long when the message began: the buffer has
  grown to at most the bytes carried, and the header is resolved as soon as it is
  complete.
\<close>

definition holding :: "header_extractor \<Rightarrow> buffer \<Rightarrow> nat \<Rightarrow> nat \<Rightarrow> parser \<Rightarrow> bool" where
  "holding E M cap k p =
     (unfinishedMessageSize p = int k
      \<and> carry_ok p
      \<and> carried p = take k M
      \<and> length (unfinishedMessageBuffer p) \<le> max cap k
      \<and> \<not> bShutdown p
      \<and> (if int k < headerByteCount E
          then \<not> bMessageHeaderExtracted p \<and> expectedMessageSize p = headerByteCount E
          else bMessageHeaderExtracted p \<and> expectedMessageSize p = int (length M)))"

text \<open>
  The integer a header of fixed width denotes: its bytes, most significant first in
  big-endian order and last in little-endian order, read as digits to the base 256;
  a signed integer of \<open>w\<close> bits is that number when it is below \<open>2 ^ (w - 1)\<close>
  and that number less \<open>2 ^ w\<close> otherwise (two's complement).
\<close>

datatype signedness = Signed | Unsigned

datatype byte_order = BigEndian | LittleEndian

definition unsigned_value :: "byte list \<Rightarrow> int" where
  "unsigned_value bs = foldl (\<lambda>acc b. acc * 256 + uint b) 0 bs"

definition fixed_width_integer :: "signedness \<Rightarrow> byte_order \<Rightarrow> byte list \<Rightarrow> int" where
  "fixed_width_integer sg ord bs =
     (let u = unsigned_value (case ord of BigEndian \<Rightarrow> bs | LittleEndian \<Rightarrow> rev bs);
          w = 8 * length bs
      in case sg of
           Unsigned \<Rightarrow> u
         | Signed \<Rightarrow> if u < 2 ^ (w - 1) then u else u - 2 ^ w)"

text \<open>
  A standard extractor of a given width, signedness and byte order: its header has
  that many bytes, the size it extracts from a buffer is the integer its first bytes
  denote, and it accepts exactly the sizes that are at least the header's.
\<close>

definition standard_extractor ::
  "header_extractor \<Rightarrow> nat \<Rightarrow> signedness \<Rightarrow> byte_order \<Rightarrow> bool" where
  "standard_extractor E width sg ord =
     (headerByteCount E = int width
      \<and> (\<forall>header rest. length header = width \<longrightarrow>
            extractMessageSize E (header @ rest) = Inr (fixed_width_integer sg ord header))
      \<and> (\<forall>s. validateMessageSize E s \<longleftrightarrow> headerByteCount E \<le> s))"

section \<open>Construction\<close>

text \<open>The definitions that evaluate the parser on given bytes.\<close>

lemmas eval_defs = whileBody_def startNewMessage_def continueUnfinishedMessage_def
  appendToUnfinishedMessage_def notifyMessageReceived_def extractMessageSize_at_def
  buffer_slice_def adjustOffset_def buffer_copy_def buffer_alloc_def reset_def
  isFinished_def isShutdown_def initial_parser_def Let_def

lemmas int32be_defs = HeaderExtractorInt32BE_def createPODExtractor_def buffer_method_def
  readInt32BE_def read_bytes_def word_rcat_def

text \<open>
  The constructor on a well-formed extractor: it installs the default validator where
  there is none, and returns a parser exactly when the buffer size is in range.
\<close>

lemma default_size_in_range: "size_in_range (Finite 10240)"
  by (simp add: size_in_range_def kMaxLength_def)

lemma size_in_range_not_le_zero: "size_in_range x \<Longrightarrow> \<not> number_le_zero x"
  by (cases x) (simp_all add: size_in_range_def number_le_zero_def)

lemma alloc_in_range:
  "size_in_range x \<Longrightarrow> \<exists>r. x = Finite r \<and> buffer_alloc_number x = Inr (replicate (nat \<lfloor>r\<rfloor>) 0)"
  by (cases x) (simp_all add: size_in_range_def buffer_alloc_number_def buffer_alloc_def)

lemma alloc_out_of_range:
  "\<not> size_in_range x \<Longrightarrow> \<not> number_le_zero x \<Longrightarrow> buffer_alloc_number x = Inl RangeError"
  by (cases x) (simp_all add: size_in_range_def number_le_zero_def buffer_alloc_number_def)

lemma constructor_object:
  assumes "well_formed_extractor h (Object r)"
  shows "constructor h (Object r) n =
     (let h' = (if member_validateMessageSize (h r) = None
                then h(r := (h r)\<lparr>member_validateMessageSize := Some (\<lambda>_. True)\<rparr>)
                else h);
          x = (case n of None \<Rightarrow> Finite 10240 | Some x \<Rightarrow> x)
      in if size_in_range x
         then (h', Inr (initial_parser r (length (projr (buffer_alloc_number x)))))
         else (h', Inl RangeError))"
proof -
  define x where "x = (case n of None \<Rightarrow> Finite 10240 | Some x \<Rightarrow> x)"
  have c: "constructor h (Object r) n =
     (let h' = (if member_validateMessageSize (h r) = None
                then h(r := (h r)\<lparr>member_validateMessageSize := Some (\<lambda>_. True)\<rparr>)
                else h)
      in if number_le_zero x then (h', Inl RangeError)
         else (case buffer_alloc_number x of
                 Inl e \<Rightarrow> (h', Inl e)
               | Inr b \<Rightarrow> (h', Inr ((initial_parser r 0)\<lparr>unfinishedMessageBuffer := b\<rparr>))))"
    using assms
    by (auto simp add: constructor_def well_formed_extractor_def Let_def initial_parser_def x_def
             split: sum.splits)
  show ?thesis
  proof (cases "size_in_range x")
    case True
    from alloc_in_range [OF True]
    obtain q :: real where "buffer_alloc_number x = Inr (replicate (nat \<lfloor>q\<rfloor>) 0)" by blast
    with True size_in_range_not_le_zero [OF True] show ?thesis
      unfolding c x_def [symmetric] by (simp add: Let_def initial_parser_def)
  next
    case False
    show ?thesis
    proof (cases "number_le_zero x")
      case True
      with False show ?thesis unfolding c x_def [symmetric] by (simp add: Let_def)
    next
      case nz: False
      from alloc_out_of_range [OF False nz] False nz show ?thesis
        unfolding c x_def [symmetric] by (simp add: Let_def)
    qed
  qed
qed




lemma constructor_initial:
  "well_formed_extractor h (Object r) \<Longrightarrow> size_in_range (Finite x) \<Longrightarrow>
     snd (constructor h (Object r) (Some (Finite x))) = Inr (initial_parser r (nat \<lfloor>x\<rfloor>))"
  using alloc_in_range [of "Finite x"] by (auto simp: constructor_object Let_def)

lemma constructor_binds_extractor:
  assumes "h r = as_object E" and "snd (constructor h (Object r) n) = Inr p"
  shows "bound_extractor (fst (constructor h (Object r) n)) p = Some E"
proof -
  from assms(1) have w: "well_formed_extractor h (Object r)"
    by (simp add: well_formed_extractor_def as_object_def)
  from assms show ?thesis
    by (auto simp: constructor_object [OF w] Let_def bound_extractor_def as_extractor_def
                   as_object_def initial_parser_def
             split: if_splits)
qed

lemma buffer_alloc_number_int:
  "n \<le> kMaxLength \<Longrightarrow> buffer_alloc_number (Finite (real_of_int n)) = buffer_alloc n"
  by (auto simp: buffer_alloc_number_def buffer_alloc_def)

lemma bare_well_formed: "well_formed_extractor (\<lambda>_. bareInt32BE) (Object 0)"
  by (simp add: well_formed_extractor_def bareInt32BE_def as_object_def)

lemma bare_no_validator: "member_validateMessageSize bareInt32BE = None"
  by (simp add: bareInt32BE_def)

lemma size_8_in_range: "size_in_range (Finite 8)"
  by (simp add: size_in_range_def kMaxLength_def)




text \<open>
  C3, as the code has it. For an extractor supplied without \<open>validateMessageSize\<close>,
  the validator the parser uses in its place accepts every size: it is the constant
  \<open>true\<close>, as the comment of the constructor and the README say ("by default always
  returns true"), not the test \<open>size \<ge> headerByteCount\<close>.
\<close>

theorem default_validator_accepts_all:
  assumes "well_formed_extractor h (Object r)"
    and "member_validateMessageSize (h r) = None"
    and "\<forall>x. n = Some x \<longrightarrow> size_in_range x"
  shows "validatorInUse h (Object r) n s = Some True"
  using assms default_size_in_range
  by (cases n)
     (auto simp: validatorInUse_def constructor_object Let_def well_formed_extractor_def
                 bound_extractor_def as_extractor_def initial_parser_def)

theorem default_validator_accepts_all_witness:
  "well_formed_extractor (\<lambda>_. bareInt32BE) (Object 0)
   \<and> member_validateMessageSize bareInt32BE = None
   \<and> size_in_range (Finite 8)
   \<and> validatorInUse (\<lambda>_. bareInt32BE) (Object 0) (Some (Finite 8)) (- 3) = Some True"
  using default_validator_accepts_all [of "\<lambda>_. bareInt32BE" 0 "Some (Finite 8)" "- 3"]
    bare_well_formed size_8_in_range
  by (simp add: bareInt32BE_def)

text \<open>
  C3, as the specification has it, fails: the extractor of Int32BE without its
  validator has a header of 4 bytes, and the validator in use accepts the size 1.
\<close>

theorem default_validator_counterexample:
  "validatorInUse (\<lambda>_. bareInt32BE) (Object 0) None 1 = Some True
   \<and> member_headerByteCount bareInt32BE = Some 4 \<and> \<not> (1::int) \<ge> 4"
proof -
  have "validatorInUse (\<lambda>_. bareInt32BE) (Object 0) None 1
          = (case as_extractor (bareInt32BE\<lparr>member_validateMessageSize := Some (\<lambda>_. True)\<rparr>) of
               None \<Rightarrow> None | Some E \<Rightarrow> Some (validateMessageSize E 1))"
    using default_size_in_range bare_no_validator
    by (simp add: validatorInUse_def constructor_object [OF bare_well_formed] Let_def
          bound_extractor_def initial_parser_def)
  then show ?thesis
    by (simp add: as_extractor_def bareInt32BE_def as_object_def
          HeaderExtractorInt32BE_def createPODExtractor_def)
qed

text \<open>
  C9. When the object passed as extractor has no \<open>validateMessageSize\<close>, the
  constructor writes one into that very object: the store after the call differs from
  the store before in that member of that object and in nothing else, whether the
  constructor then returns or throws on the buffer size. The caller, who holds the
  reference, sees the member; a later constructor given the same reference finds the
  member there, leaves the store as it is, and its parser reads that same validator.
\<close>

theorem constructor_installs_validator:
  assumes "well_formed_extractor h (Object r)"
    and "member_validateMessageSize (h r) = None"
  shows "member_validateMessageSize (fst (constructor h (Object r) n) r) \<noteq> None
     \<and> fst (constructor h (Object r) n)
         = h(r := (h r)\<lparr>member_validateMessageSize := Some (\<lambda>_. True)\<rparr>)
     \<and> fst (constructor (fst (constructor h (Object r) n)) (Object r) n')
         = fst (constructor h (Object r) n)
     \<and> (\<forall>p'. snd (constructor (fst (constructor h (Object r) n)) (Object r) n') = Inr p' \<longrightarrow>
           map_option validateMessageSize
             (bound_extractor (fst (constructor h (Object r) n)) p') = Some (\<lambda>_. True))"
proof -
  let ?h' = "h(r := (h r)\<lparr>member_validateMessageSize := Some (\<lambda>_. True)\<rparr>)"
  have 1: "fst (constructor h (Object r) n) = ?h'"
    using assms by (simp add: constructor_object Let_def)
  have w: "well_formed_extractor ?h' (Object r)"
    using assms(1) by (simp add: well_formed_extractor_def)
  have 2: "fst (constructor ?h' (Object r) n') = ?h'"
    by (simp add: constructor_object [OF w] Let_def)
  have 3: "map_option validateMessageSize (bound_extractor ?h' p') = Some (\<lambda>_. True)"
    if "snd (constructor ?h' (Object r) n') = Inr p'" for p'
    using that assms(1)
    by (auto simp: constructor_object [OF w] Let_def bound_extractor_def as_extractor_def
                   initial_parser_def well_formed_extractor_def
             split: if_splits)
  from 1 2 3 show ?thesis by simp
qed

theorem constructor_installs_validator_witness:
  "well_formed_extractor (\<lambda>_. bareInt32BE) (Object 0)
   \<and> member_validateMessageSize bareInt32BE = None
   \<and> member_validateMessageSize
        (fst (constructor (\<lambda>_. bareInt32BE) (Object 0) (Some (Finite 8))) 0) \<noteq> None
   \<and> member_validateMessageSize
        (fst (constructor (\<lambda>_. bareInt32BE) (Object 0) (Some NaN)) 0) \<noteq> None"
  using constructor_installs_validator [of "\<lambda>_. bareInt32BE" 0 "Some (Finite 8)" "Some (Finite 8)"]
        constructor_installs_validator [of "\<lambda>_. bareInt32BE" 0 "Some NaN" "Some NaN"]
        bare_well_formed
  by (simp add: bareInt32BE_def)

section \<open>Shutdown\<close>

lemma perform_shutdown:
  "bShutdown p \<Longrightarrow> \<exists>p'. perform E p op = Some (p', []) \<and> bShutdown p'"
  by (cases op)
     (auto simp: perform_def parseBytes_def isShutdown_def streamWrite_def
                 runCallback_def emitError_def
           split: callback.splits)

lemma performAll_shutdown:
  "bShutdown p \<Longrightarrow> \<exists>p'. performAll E p ops = Some (p', []) \<and> bShutdown p'"
proof (induction ops arbitrary: p)
  case Nil
  then show ?case by simp
next
  case (Cons op ops)
  from perform_shutdown [OF Cons.prems, of E op]
  obtain p1 where "perform E p op = Some (p1, [])" and "bShutdown p1" by blast
  with Cons.IH [of p1] show ?case by auto
qed

text \<open>
  C4. On a parser that is shut down, \<open>parseBytes\<close> returns \<open>false\<close> for every
  input, leaves the parser as it is and schedules nothing. No sequence of operations
  (\<open>parseBytes\<close>, \<open>_write\<close>, running a scheduled closure, the two queries) leaves the
  shutdown state, and none of them schedules a notification.
\<close>

theorem shutdown_is_permanent:
  assumes "bShutdown p"
  shows "parseBytes E p bytes = Some (Normal False, p, [])
     \<and> (\<exists>p'. performAll E p ops = Some (p', []) \<and> bShutdown p')"
  using assms performAll_shutdown by (simp add: parseBytes_def isShutdown_def)

theorem shutdown_is_permanent_witness:
  "parseBytes HeaderExtractorInt32BE (initial_parser 0 8) [0,0,0,1]
     = Some (Normal False, (initial_parser 0 8)\<lparr>bShutdown := True\<rparr>, [ErrorWithSize 1])
   \<and> bShutdown ((initial_parser 0 8)\<lparr>bShutdown := True\<rparr>)
   \<and> parseBytes HeaderExtractorInt32BE ((initial_parser 0 8)\<lparr>bShutdown := True\<rparr>) [0,0,0,4]
       = Some (Normal False, (initial_parser 0 8)\<lparr>bShutdown := True\<rparr>, [])"
proof -
  have 1: "parseBytes HeaderExtractorInt32BE (initial_parser 0 8) [0,0,0,1]
     = Some (Normal False, (initial_parser 0 8)\<lparr>bShutdown := True\<rparr>, [ErrorWithSize 1])"
    by (simp add: parseBytes_def drain.simps eval_defs int32be_defs)
  have 2: "bShutdown ((initial_parser 0 8)\<lparr>bShutdown := True\<rparr>)" by simp
  from shutdown_is_permanent [OF 2, of HeaderExtractorInt32BE "[0,0,0,4]"] 1 2
  show ?thesis by simp
qed

section \<open>Buffers\<close>

lemma buffer_slice_nonneg:
  "0 \<le> s \<Longrightarrow> 0 \<le> e \<Longrightarrow> buffer_slice b s e = take (nat e - nat s) (drop (nat s) b)"
  by (auto simp: buffer_slice_def adjustOffset_def Let_def min_def)

lemma buffer_copy_ok:
  assumes "0 \<le> t" "0 \<le> s" "s \<le> e" "e \<le> int (length src)" "t + (e - s) \<le> int (length tgt)"
  shows "buffer_copy src tgt t s e =
     Inr (take (nat t) tgt @ take (nat (e - s)) (drop (nat s) src) @ drop (nat t + nat (e - s)) tgt)"
proof (cases "e = s")
  case True
  with assms show ?thesis by (simp add: buffer_copy_def)
next
  case False
  with assms have lt: "s < e" by simp
  with assms have "\<not> int (length tgt) \<le> t" by linarith
  moreover have "min (min (nat (e - s)) (length tgt - nat t)) (length src - nat s) = nat (e - s)"
    using assms lt by (simp add: min_def) linarith
  ultimately show ?thesis using assms lt by (simp add: buffer_copy_def Let_def)
qed

lemma buffer_alloc_ok: "0 \<le> n \<Longrightarrow> buffer_alloc n = Inr (replicate (nat n) 0)"
  by (simp add: buffer_alloc_def)

lemma append_ok:
  assumes "carry_ok p" "0 \<le> off" "0 \<le> cnt" "off + cnt \<le> int (length data)"
  shows "appendToUnfinishedMessage p data off cnt =
     Inr (p\<lparr>unfinishedMessageBuffer :=
               carried p @ take (nat cnt) (drop (nat off) data)
               @ (if int (length (unfinishedMessageBuffer p)) - unfinishedMessageSize p < cnt then []
                  else drop (nat (unfinishedMessageSize p) + nat cnt) (unfinishedMessageBuffer p)),
             unfinishedMessageSize := unfinishedMessageSize p + cnt\<rparr>)"
proof (cases "int (length (unfinishedMessageBuffer p)) - unfinishedMessageSize p < cnt")
  case True
  have "nat (off + cnt) - nat off = nat cnt" using assms by linarith
  with True assms show ?thesis
    by (simp add: appendToUnfinishedMessage_def Let_def buffer_slice_nonneg carried_def carry_ok_def)
next
  case False
  with assms have "unfinishedMessageSize p + (off + cnt - off) \<le> int (length (unfinishedMessageBuffer p))"
    by simp
  from buffer_copy_ok [OF _ assms(2) _ assms(4) this] assms False
  show ?thesis
    by (simp add: appendToUnfinishedMessage_def Let_def carried_def carry_ok_def)
qed

lemma append_props:
  assumes "carry_ok p" "0 \<le> off" "0 \<le> cnt" "off + cnt \<le> int (length data)"
  shows "\<exists>p'. appendToUnfinishedMessage p data off cnt = Inr p'
     \<and> unfinishedMessageSize p' = unfinishedMessageSize p + cnt
     \<and> carried p' = carried p @ take (nat cnt) (drop (nat off) data)
     \<and> carry_ok p'
     \<and> length (unfinishedMessageBuffer p') =
         (if int (length (unfinishedMessageBuffer p)) - unfinishedMessageSize p < cnt
          then nat (unfinishedMessageSize p + cnt) else length (unfinishedMessageBuffer p))
     \<and> expectedMessageSize p' = expectedMessageSize p
     \<and> bMessageHeaderExtracted p' = bMessageHeaderExtracted p
     \<and> bShutdown p' = bShutdown p
     \<and> lastError p' = lastError p
     \<and> headerExtractor p' = headerExtractor p"
proof -
  let ?u = "unfinishedMessageSize p" and ?buf = "unfinishedMessageBuffer p"
  let ?new = "take (nat cnt) (drop (nat off) data)"
  let ?rest = "if int (length ?buf) - ?u < cnt then [] else drop (nat ?u + nat cnt) ?buf"
  let ?p' = "p\<lparr>unfinishedMessageBuffer := carried p @ ?new @ ?rest,
               unfinishedMessageSize := ?u + cnt\<rparr>"
  have len: "length (carried p) = nat ?u"
    using assms(1) by (simp add: carried_def carry_ok_def min_def) linarith
  have len2: "length ?new = nat cnt"
    using assms by simp
  have n: "nat (?u + cnt) = nat ?u + nat cnt"
    using assms by (simp add: carry_ok_def nat_add_distrib)
  have 1: "appendToUnfinishedMessage p data off cnt = Inr ?p'"
    by (rule append_ok [OF assms])
  have 2: "carried ?p' = carried p @ ?new"
    using len len2 n by (simp add: carried_def)
  have 3: "length (unfinishedMessageBuffer ?p') =
         (if int (length ?buf) - ?u < cnt then nat (?u + cnt) else length ?buf)"
  proof (cases "int (length ?buf) - ?u < cnt")
    case True
    then show ?thesis using len len2 n by simp
  next
    case False
    then have "nat ?u + nat cnt \<le> length ?buf" using n by linarith
    with False show ?thesis using len len2 by simp
  qed
  have 4: "carry_ok ?p'"
    using 3 assms by (auto simp: carry_ok_def simp del: length_append)
  show ?thesis
    using 1 2 3 4 by (intro exI [of _ ?p']) simp
qed

lemma notify_ok:
  assumes "0 \<le> off" "0 \<le> sz" "off + sz \<le> int (length data)"
  shows "notifyMessageReceived p data off sz =
     (Normal (), reset p, [EmitMessage (take (nat sz) (drop (nat off) data))])"
proof -
  have "buffer_copy data (replicate (nat sz) 0) 0 off (off + sz) =
     Inr (take (nat 0) (replicate (nat sz) 0) @ take (nat (off + sz - off)) (drop (nat off) data)
          @ drop (nat 0 + nat (off + sz - off)) (replicate (nat sz) 0))"
    by (rule buffer_copy_ok) (use assms in auto)
  then show ?thesis using assms
    by (simp add: notifyMessageReceived_def Let_def buffer_alloc_ok)
qed

section \<open>Messages in one chunk\<close>

lemma drain_Inl: "whileBody E bytes s = Inl r \<Longrightarrow> drain E bytes s = Some r"
  by (subst drain.simps) simp

lemma drain_Inr: "whileBody E bytes s = Inr s' \<Longrightarrow> drain E bytes s = drain E bytes s'"
  by (subst drain.simps) simp

lemma whileBody_exit:
  "int (length bytes) \<le> off \<Longrightarrow> whileBody E bytes (off, p, q) = Inl (Normal True, p, q)"
  by (simp add: whileBody_def)

lemma extract_at_prefix:
  assumes "0 \<le> headerByteCount E" "drop off data = M @ rest" "headerByteCount E \<le> int (length M)"
  shows "extractMessageSize_at E data (int off) = extractMessageSize E (take (nat (headerByteCount E)) M)"
proof -
  have "nat (int off + headerByteCount E) - off = nat (headerByteCount E)"
    using assms(1) by linarith
  then have "buffer_slice data (int off) (int off + headerByteCount E)
      = take (nat (headerByteCount E)) (drop off data)"
    using assms(1) by (simp add: buffer_slice_nonneg)
  also have "\<dots> = take (nat (headerByteCount E)) M"
    using assms(2,3) by simp
  finally show ?thesis by (simp add: extractMessageSize_at_def Let_def)
qed

lemma startNewMessage_whole:
  assumes "0 < headerByteCount E" "valid_message E M" "drop off data = M @ rest"
  shows "startNewMessage E p data (int off) = (Normal (int (length M)), reset p, [EmitMessage M])"
proof -
  from assms(3) have len: "length data - off = length M + length rest"
    by (metis length_append length_drop)
  from assms(1,2) have pos: "0 < length M" by (auto simp: valid_message_def)
  with len have off: "off < length data" by linarith
  have avail: "int (length data) - int off = int (length M) + int (length rest)"
    using len off by linarith
  have ex: "extractMessageSize_at E data (int off) = Inr (int (length M))"
    using extract_at_prefix [OF _ assms(3)] assms(1,2) by (simp add: valid_message_def)
  have nt: "notifyMessageReceived p data (int off) (int (length M))
      = (Normal (), reset p, [EmitMessage (take (nat (int (length M))) (drop (nat (int off)) data))])"
    by (rule notify_ok) (use avail in auto)
  show ?thesis
    using assms(2) avail ex nt assms(3)
    by (simp add: startNewMessage_def Let_def valid_message_def)
qed

lemma isFinished_reset [simp]: "isFinished (reset p)"
  by (simp add: isFinished_def reset_def)

lemma reset_reset [simp]: "reset (reset p) = reset p"
  by (simp add: reset_def)

lemma drain_messages:
  assumes "0 < headerByteCount E" "\<forall>M\<in>set Ms. valid_message E M" "isFinished p"
  shows "drain E (pre @ concat Ms) (int (length pre), p, q)
     = Some (Normal True, (if Ms = [] then p else reset p), q @ map EmitMessage Ms)"
  using assms(2,3)
proof (induction Ms arbitrary: pre p q)
  case Nil
  show ?case by (simp add: drain_Inl whileBody_exit)
next
  case (Cons M Ms)
  let ?data = "pre @ concat (M # Ms)"
  from Cons.prems have vM: "valid_message E M" by simp
  with assms(1) have pos: "0 < length M" by (auto simp: valid_message_def)
  have dr: "drop (length pre) ?data = M @ concat Ms" by simp
  have st: "startNewMessage E p ?data (int (length pre))
      = (Normal (int (length M)), reset p, [EmitMessage M])"
    by (rule startNewMessage_whole [OF assms(1) vM dr])
  have lt: "int (length pre) < int (length ?data)" using pos by (cases M) simp_all
  have wb: "whileBody E ?data (int (length pre), p, q)
      = Inr (int (length pre) + int (length M), reset p, (q @ [EmitMessage M]))"
    unfolding whileBody_def using st Cons.prems(2) lt by (simp del: length_append concat.simps append_assoc)
  have "drain E ?data (int (length pre), p, q)
      = drain E ((pre @ M) @ concat Ms) (int (length (pre @ M)), reset p, (q @ [EmitMessage M]))"
    using drain_Inr [OF wb] by simp
  also have "\<dots> = Some (Normal True, (if Ms = [] then reset p else reset (reset p)),
        (q @ [EmitMessage M]) @ map EmitMessage Ms)"
    by (rule Cons.IH) (use Cons.prems in auto)
  finally show ?case by simp
qed

text \<open>
  C2. For every list of valid messages, one call of \<open>parseBytes\<close> on their
  concatenation, by a parser that is finished and not shut down, returns \<open>true\<close>
  and schedules exactly one message closure for each message, in the order of the
  stream; the notifications they deliver are the messages themselves.
\<close>

theorem parseBytes_concatenated_messages:
  assumes "0 < headerByteCount E" "\<forall>M\<in>set Ms. valid_message E M" "isFinished p" "\<not> isShutdown p"
  shows "\<exists>p'. parseBytes E p (concat Ms) = Some (Normal True, p', map EmitMessage Ms)
     \<and> notifications (map EmitMessage Ms) p' = map Message Ms"
  using drain_messages [OF assms(1,2,3), of "[]" "[]"] assms(4)
  by (simp add: parseBytes_def notifications_def runCallback_def comp_def)

theorem parseBytes_concatenated_messages_witness:
  "0 < headerByteCount HeaderExtractorInt32BE
   \<and> valid_message HeaderExtractorInt32BE [0,0,0,8,0,0,0,5]
   \<and> valid_message HeaderExtractorInt32BE [0,0,0,4]
   \<and> valid_message HeaderExtractorInt32BE [0,0,0,8,0,1,0,0]
   \<and> isFinished (initial_parser 0 8) \<and> \<not> isShutdown (initial_parser 0 8)
   \<and> (\<exists>p'. parseBytes HeaderExtractorInt32BE (initial_parser 0 8)
              [0,0,0,8,0,0,0,5, 0,0,0,4, 0,0,0,8,0,1,0,0]
          = Some (Normal True, p',
               [EmitMessage [0,0,0,8,0,0,0,5], EmitMessage [0,0,0,4], EmitMessage [0,0,0,8,0,1,0,0]]))"
proof -
  have h: "0 < headerByteCount HeaderExtractorInt32BE" by (simp add: int32be_defs)
  have v: "\<forall>M\<in>set [[0,0,0,8,0,0,0,5], [0,0,0,4], [0,0,0,8,0,1,0,0]]. valid_message HeaderExtractorInt32BE M"
    by (simp add: valid_message_def int32be_defs)
  have i: "isFinished (initial_parser 0 8)" "\<not> isShutdown (initial_parser 0 8)"
    by (simp_all add: eval_defs)
  from parseBytes_concatenated_messages [OF h v i] h v i show ?thesis by auto
qed

section \<open>Termination of the loop\<close>

lemma append_fields:
  "appendToUnfinishedMessage p d off c = Inr p1 \<Longrightarrow>
     bMessageHeaderExtracted p1 = bMessageHeaderExtracted p
     \<and> expectedMessageSize p1 = expectedMessageSize p
     \<and> bShutdown p1 = bShutdown p"
  by (auto simp: appendToUnfinishedMessage_def Let_def split: if_splits sum.splits)

lemma notify_state:
  "notifyMessageReceived p d off sz = (r, p', cs) \<Longrightarrow> p' = reset p"
  by (auto simp: notifyMessageReceived_def Let_def split: sum.splits)

lemma notify_callbacks:
  "notifyMessageReceived p d off sz = (r, p', cs) \<Longrightarrow> \<forall>c\<in>set cs. \<exists>b. c = EmitMessage b"
  by (auto simp: notifyMessageReceived_def Let_def split: sum.splits)

lemma phase_reset [simp]: "phase (reset p) = 0"
  by (simp add: phase_def)

lemma start_progress:
  assumes "\<forall>x. validateMessageSize E x \<longrightarrow> 1 \<le> x"
    and "off < int (length data)"
    and "startNewMessage E p data off = (Normal n, p', cs)"
    and "0 \<le> n"
  shows "1 \<le> n"
  using assms
  by (auto simp: startNewMessage_def Let_def split: if_splits sum.splits prod.splits completion.splits)

lemma continue_progress:
  assumes "off < int (length data)"
    and "continueUnfinishedMessage E p data off = (Normal n, p', cs)"
    and "0 \<le> n" and "\<not> isFinished p"
  shows "1 \<le> n \<or> phase p' < phase p"
proof -
  let ?missing = "expectedMessageSize p - unfinishedMessageSize p"
  let ?avail = "int (length data) - off"
  show ?thesis
  proof (cases "?avail < ?missing")
    case True
    with assms show ?thesis
      by (auto simp: continueUnfinishedMessage_def Let_def split: sum.splits)
  next
    case False
    show ?thesis
    proof (cases "appendToUnfinishedMessage p data off ?missing")
      case (Inl e)
      with False assms show ?thesis by (simp add: continueUnfinishedMessage_def Let_def)
    next
      case (Inr p1)
      note f = append_fields [OF Inr]
      show ?thesis
      proof (cases "bMessageHeaderExtracted p")
        case True
        with False Inr f assms(2) have "p' = reset p1"
          by (auto simp: continueUnfinishedMessage_def Let_def
                   split: sum.splits prod.splits completion.splits dest: notify_state)
        with assms(4) show ?thesis by (simp add: phase_def)
      next
        case nx: False
        with False Inr f assms(2) have "bMessageHeaderExtracted p'"
          by (auto simp: continueUnfinishedMessage_def Let_def
                   split: sum.splits prod.splits completion.splits if_splits)
        with nx assms(4) show ?thesis by (simp add: phase_def)
      qed
    qed
  qed
qed

lemma whileBody_decreases:
  assumes "\<forall>x. validateMessageSize E x \<longrightarrow> 1 \<le> x"
    and "whileBody E bytes s = Inr s'"
  shows "loop_measure bytes s' < loop_measure bytes s"
proof -
  obtain off p q where s: "s = (off, p, q)" by (cases s)
  from assms(2) s have lt: "off < int (length bytes)"
    by (auto simp: whileBody_def split: if_splits)
  show ?thesis
  proof (cases "isFinished p")
    case True
    with assms(2) s lt obtain n p' cs where
      st: "startNewMessage E p bytes off = (Normal n, p', cs)" and n: "0 \<le> n"
      and s': "s' = (off + n, p', q @ cs)"
      by (auto simp: whileBody_def split: prod.splits completion.splits if_splits)
    from start_progress [OF assms(1) lt st n] have "1 \<le> n" .
    moreover have "phase p' \<le> 2" by (simp add: phase_def)
    ultimately show ?thesis using s s' lt by (simp add: loop_measure_def)
  next
    case False
    with assms(2) s lt obtain n p' cs where
      st: "continueUnfinishedMessage E p bytes off = (Normal n, p', cs)" and n: "0 \<le> n"
      and s': "s' = (off + n, p', q @ cs)"
      by (auto simp: whileBody_def split: prod.splits completion.splits if_splits)
    from continue_progress [OF lt st n False] have "1 \<le> n \<or> phase p' < phase p" .
    moreover have "phase p' \<le> 2" by (simp add: phase_def)
    ultimately show ?thesis using s s' lt n by (auto simp: loop_measure_def)
  qed
qed

lemma drain_terminates:
  assumes "\<forall>x. validateMessageSize E x \<longrightarrow> 1 \<le> x"
  shows "\<exists>r. drain E bytes s = Some r"
proof (induction "loop_measure bytes s" arbitrary: s rule: less_induct)
  case less
  show ?case
  proof (cases "whileBody E bytes s")
    case (Inl r)
    then show ?thesis using drain_Inl by blast
  next
    case (Inr s')
    from whileBody_decreases [OF assms Inr] less obtain r where "drain E bytes s' = Some r"
      by blast
    then show ?thesis using drain_Inr [OF Inr] by metis
  qed
qed

lemma whileBody_zero:
  assumes "isFinished p" "0 \<le> off" "off < int (length bytes)"
    and "headerByteCount E \<le> int (length bytes) - off"
    and "extractMessageSize_at E bytes off = Inr 0"
    and "validateMessageSize E 0"
  shows "whileBody E bytes (off, p, q) = Inr (off, reset p, q @ [EmitMessage []])"
proof -
  have "notifyMessageReceived p bytes off 0 = (Normal (), reset p, [EmitMessage []])"
    using notify_ok [of off 0 bytes p] assms by simp
  then show ?thesis using assms
    by (simp add: whileBody_def startNewMessage_def Let_def)
qed

lemma drain_zero_None:
  assumes "isFinished p" "0 \<le> off" "off < int (length bytes)"
    and "headerByteCount E \<le> int (length bytes) - off"
    and "extractMessageSize_at E bytes off = Inr 0"
    and "validateMessageSize E 0"
  shows "drain E bytes (off, p, q) = None"
proof (cases "drain E bytes (off, p, q)")
  case None
  then show ?thesis .
next
  case (Some r)
  let ?P = "\<lambda>E' bytes' s (r::outcome).
     \<not> (E' = E \<and> bytes' = bytes \<and> (\<exists>p q. isFinished p \<and> s = (off, p, q)))"
  have "?P E bytes (off, p, q) r"
  proof (rule drain.raw_induct [where P = ?P, OF _ Some])
    fix drain' E' bytes' s r'
    assume IH: "\<And>E' bytes' s r'. drain' E' bytes' s = Some r' \<Longrightarrow> ?P E' bytes' s r'"
      and eq: "(case whileBody E' bytes' s of Inl r \<Rightarrow> Some r | Inr s' \<Rightarrow> drain' E' bytes' s') = Some r'"
    show "?P E' bytes' s r'"
    proof
      assume a: "E' = E \<and> bytes' = bytes \<and> (\<exists>p q. isFinished p \<and> s = (off, p, q))"
      then obtain p q where p: "isFinished p" and s: "s = (off, p, q)" by blast
      from whileBody_zero [OF p assms(2-6), of q] eq a s
      have "drain' E bytes (off, reset p, q @ [EmitMessage []]) = Some r'" by simp
      from IH [OF this] show False by simp
    qed
  qed
  with assms(1) show ?thesis by blast
qed

lemma reach_drain: "reach E bytes s s' \<Longrightarrow> drain E bytes s = drain E bytes s'"
  by (induction rule: reach.induct) (simp_all add: drain_Inr)

lemma start_nonneg_callbacks:
  "startNewMessage E p data off = (Normal n, p', cs) \<Longrightarrow> 0 \<le> n \<Longrightarrow>
     \<forall>c\<in>set cs. \<exists>b. c = EmitMessage b"
  by (auto simp: startNewMessage_def Let_def
           split: if_splits sum.splits prod.splits completion.splits dest!: notify_callbacks)

lemma continue_nonneg_callbacks:
  "continueUnfinishedMessage E p data off = (Normal n, p', cs) \<Longrightarrow> 0 \<le> n \<Longrightarrow>
     \<forall>c\<in>set cs. \<exists>b. c = EmitMessage b"
  by (auto simp: continueUnfinishedMessage_def Let_def
           split: if_splits sum.splits prod.splits completion.splits dest!: notify_callbacks)

section \<open>Validation failures and divergence\<close>

lemma whileBody_Inr_props:
  assumes "whileBody E bytes s = Inr s'"
  shows "fst s \<le> fst s'
     \<and> (\<exists>cs. snd (snd s') = snd (snd s) @ cs \<and> (\<forall>c\<in>set cs. \<exists>b. c = EmitMessage b))"
proof -
  obtain off p q where s: "s = (off, p, q)" by (cases s)
  from assms s have lt: "off < int (length bytes)"
    by (auto simp: whileBody_def split: if_splits)
  show ?thesis
  proof (cases "isFinished p")
    case True
    with assms s lt obtain n p' cs where
      st: "startNewMessage E p bytes off = (Normal n, p', cs)" and n: "0 \<le> n"
      and s': "s' = (off + n, p', q @ cs)"
      by (auto simp: whileBody_def split: prod.splits completion.splits if_splits)
    from start_nonneg_callbacks [OF st n] s s' n show ?thesis by simp
  next
    case False
    with assms s lt obtain n p' cs where
      st: "continueUnfinishedMessage E p bytes off = (Normal n, p', cs)" and n: "0 \<le> n"
      and s': "s' = (off + n, p', q @ cs)"
      by (auto simp: whileBody_def split: prod.splits completion.splits if_splits)
    from continue_nonneg_callbacks [OF st n] s s' n show ?thesis by simp
  qed
qed

lemma reach_props:
  "reach E bytes s s' \<Longrightarrow>
     fst s \<le> fst s'
     \<and> (\<exists>cs. snd (snd s') = snd (snd s) @ cs \<and> (\<forall>c\<in>set cs. \<exists>b. c = EmitMessage b))"
proof (induction rule: reach.induct)
  case (reach_refl s)
  show ?case by simp
next
  case (reach_step s s' s'')
  from whileBody_Inr_props [OF reach_step.hyps(1)]
  obtain cs where 1: "fst s \<le> fst s'" "snd (snd s') = snd (snd s) @ cs"
    "\<forall>c\<in>set cs. \<exists>b. c = EmitMessage b" by blast
  from reach_step.IH
  obtain cs' where 2: "fst s' \<le> fst s''" "snd (snd s'') = snd (snd s') @ cs'"
    "\<forall>c\<in>set cs'. \<exists>b. c = EmitMessage b" by blast
  from 1 2 have "snd (snd s'') = snd (snd s) @ (cs @ cs')"
    and "\<forall>c\<in>set (cs @ cs'). \<exists>b. c = EmitMessage b" by auto
  with 1(1) 2(1) show ?case by (intro conjI exI [of _ "cs @ cs'"]) simp_all
qed

text \<open>
  \<open>rejectedSize\<close> is defined exactly where a pass of the loop schedules an error
  closure.
\<close>

lemma start_error_iff:
  assumes "isFinished p"
  shows "(\<exists>r p' cs. startNewMessage E p bytes off = (r, p', cs)
            \<and> (\<exists>c\<in>set cs. \<forall>b. c \<noteq> EmitMessage b))
         \<longleftrightarrow> (\<exists>m. rejectedSize E p bytes off = Some m)"
  using assms
  by (auto simp: startNewMessage_def rejectedSize_def Let_def
           split: if_splits sum.splits prod.splits completion.splits
           dest!: notify_callbacks)

lemma continue_error_iff:
  assumes "\<not> isFinished p"
  shows "(\<exists>r p' cs. continueUnfinishedMessage E p bytes off = (r, p', cs)
            \<and> (\<exists>c\<in>set cs. \<forall>b. c \<noteq> EmitMessage b))
         \<longleftrightarrow> (\<exists>m. rejectedSize E p bytes off = Some m)"
  using assms
  by (auto simp: continueUnfinishedMessage_def rejectedSize_def Let_def
           split: if_splits sum.splits prod.splits completion.splits
           dest!: notify_callbacks)

lemma whileBody_rejected:
  assumes "off < int (length bytes)" and "rejectedSize E p bytes off = Some m"
  shows "\<exists>p' cb. whileBody E bytes (off, p, q) = Inl (Normal False, p', q @ [cb])
     \<and> bShutdown p'
     \<and> runCallback p' cb = (p'\<lparr>lastError := Some ERR_INVALID_MSG_SIZE\<rparr>, Error ERR_INVALID_MSG_SIZE m)
     \<and> \<not> validateMessageSize E m"
proof (cases "isFinished p")
  case True
  with assms show ?thesis
    by (auto simp: rejectedSize_def whileBody_def startNewMessage_def Let_def runCallback_def
                   emitError_def
             split: if_splits sum.splits)
next
  case False
  with assms show ?thesis
    by (auto simp: rejectedSize_def whileBody_def continueUnfinishedMessage_def Let_def
                   runCallback_def emitError_def
             split: if_splits sum.splits)
qed

text \<open>
  C5. Whenever the loop of \<open>parseBytes\<close>, at some offset of the chunk, extracts a
  size that the validator rejects, \<open>parseBytes\<close> returns \<open>false\<close> and the parser
  is shut down. The closures scheduled by the call are those scheduled before
  that header, all of them messages, followed by one error closure and nothing else:
  no byte after the failing header is processed. The error closure delivers the error
  with the rejected size as its context, also when it runs after further calls, since
  those leave the parser as it is.
\<close>

theorem rejected_size_shuts_down:
  assumes "\<not> isShutdown p"
    and "reach E bytes (0, p, []) (off, pk, q)"
    and "off < int (length bytes)"
    and "rejectedSize E pk bytes off = Some m"
  shows "\<exists>p' cb. parseBytes E p bytes = Some (Normal False, p', q @ [cb])
     \<and> isShutdown p'
     \<and> (\<forall>c\<in>set q. \<exists>b. c = EmitMessage b)
     \<and> runCallback p' cb = (p'\<lparr>lastError := Some ERR_INVALID_MSG_SIZE\<rparr>, Error ERR_INVALID_MSG_SIZE m)
     \<and> \<not> validateMessageSize E m
     \<and> (\<forall>bytes'. parseBytes E p' bytes' = Some (Normal False, p', []))"
proof -
  from whileBody_rejected [OF assms(3,4), of q] obtain p' cb where
    wb: "whileBody E bytes (off, pk, q) = Inl (Normal False, p', q @ [cb])"
    and sh: "bShutdown p'"
    and rc: "runCallback p' cb = (p'\<lparr>lastError := Some ERR_INVALID_MSG_SIZE\<rparr>, Error ERR_INVALID_MSG_SIZE m)"
    and nv: "\<not> validateMessageSize E m"
    by blast
  have "parseBytes E p bytes = drain E bytes (0, p, [])"
    using assms(1) by (simp add: parseBytes_def)
  also have "\<dots> = drain E bytes (off, pk, q)" by (rule reach_drain [OF assms(2)])
  also have "\<dots> = Some (Normal False, p', q @ [cb])" by (rule drain_Inl [OF wb])
  finally have 1: "parseBytes E p bytes = Some (Normal False, p', q @ [cb])" .
  from reach_props [OF assms(2)] have 2: "\<forall>c\<in>set q. \<exists>b. c = EmitMessage b" by simp
  from sh have 3: "\<forall>bytes'. parseBytes E p' bytes' = Some (Normal False, p', [])"
    by (simp add: parseBytes_def isShutdown_def)
  from 1 2 3 sh rc nv show ?thesis by (simp add: isShutdown_def)
qed

theorem rejected_size_shuts_down_witness:
  "reach HeaderExtractorInt32BE [0,0,0,4, 0,0,0,1, 0,0,0,4]
      (0, initial_parser 0 8, []) (4, initial_parser 0 8, [EmitMessage [0,0,0,4]])
   \<and> rejectedSize HeaderExtractorInt32BE (initial_parser 0 8) [0,0,0,4, 0,0,0,1, 0,0,0,4] 4 = Some 1
   \<and> (\<exists>p' cb. parseBytes HeaderExtractorInt32BE (initial_parser 0 8) [0,0,0,4, 0,0,0,1, 0,0,0,4]
          = Some (Normal False, p', [EmitMessage [0,0,0,4]] @ [cb])
        \<and> isShutdown p'
        \<and> runCallback p' cb
            = (p'\<lparr>lastError := Some ERR_INVALID_MSG_SIZE\<rparr>, Error ERR_INVALID_MSG_SIZE 1))"
proof -
  let ?bytes = "[0,0,0,4, 0,0,0,1, 0,0,0,4] :: buffer"
  have w: "whileBody HeaderExtractorInt32BE ?bytes (0, initial_parser 0 8, [])
      = Inr (4, initial_parser 0 8, [EmitMessage [0,0,0,4]])"
    by (simp add: eval_defs int32be_defs)
  have r: "reach HeaderExtractorInt32BE ?bytes
      (0, initial_parser 0 8, []) (4, initial_parser 0 8, [EmitMessage [0,0,0,4]])"
    by (rule reach_step [OF w reach_refl])
  have s: "rejectedSize HeaderExtractorInt32BE (initial_parser 0 8) ?bytes 4 = Some 1"
    by (simp add: rejectedSize_def eval_defs int32be_defs)
  have n: "\<not> isShutdown (initial_parser 0 8)" by (simp add: eval_defs)
  have l: "(4::int) < int (length ?bytes)" by simp
  from rejected_size_shuts_down [OF n r l s] r s show ?thesis by blast
qed

text \<open>
  C10, as the code has it. When every size the validator accepts is at least 1,
  \<open>parseBytes\<close> returns (or throws) for every chunk and every state of the parser.
  When the loop stands, with the parser idle, at a header that lies whole in the chunk
  (so that \<open>_startNewMessage\<close> reads it in place), the extracted size is 0 and the
  validator accepts 0 (as the validator installed by the constructor does), the pass of
  the loop schedules an empty message and leaves the offset where it was, and
  \<open>parseBytes\<close> does not return. The restriction to a header read in place is
  needed: see the counterexample below.
\<close>

theorem parseBytes_termination:
  "((\<forall>x. validateMessageSize E x \<longrightarrow> 1 \<le> x) \<longrightarrow> (\<exists>r. parseBytes E p bytes = Some r))
   \<and> (\<not> isShutdown p \<and> reach E bytes (0, p, []) (off, pk, q) \<and> off < int (length bytes)
        \<and> isFinished pk \<and> headerByteCount E \<le> int (length bytes) - off
        \<and> extractMessageSize_at E bytes off = Inr 0 \<and> validateMessageSize E 0
      \<longrightarrow> whileBody E bytes (off, pk, q) = Inr (off + 0, reset pk, q @ [EmitMessage []])
          \<and> parseBytes E p bytes = None)"
proof (intro conjI impI)
  assume "\<forall>x. validateMessageSize E x \<longrightarrow> 1 \<le> x"
  from drain_terminates [OF this, of bytes "(0, p, [])"]
  show "\<exists>r. parseBytes E p bytes = Some r"
    by (auto simp: parseBytes_def)
next
  assume a: "\<not> isShutdown p \<and> reach E bytes (0, p, []) (off, pk, q) \<and> off < int (length bytes)
        \<and> isFinished pk \<and> headerByteCount E \<le> int (length bytes) - off
        \<and> extractMessageSize_at E bytes off = Inr 0 \<and> validateMessageSize E 0"
  then have r: "reach E bytes (0, p, []) (off, pk, q)" by simp
  from reach_props [OF r] have off: "0 \<le> off" by simp
  from a off show "whileBody E bytes (off, pk, q) = Inr (off + 0, reset pk, q @ [EmitMessage []])"
    by (simp add: whileBody_zero)
  have "parseBytes E p bytes = drain E bytes (0, p, [])"
    using a by (simp add: parseBytes_def)
  also have "\<dots> = drain E bytes (off, pk, q)" by (rule reach_drain [OF r])
  also have "\<dots> = None" using a off by (intro drain_zero_None) simp_all
  finally show "parseBytes E p bytes = None" .
qed

theorem parseBytes_termination_witness:
  "(\<exists>r. parseBytes HeaderExtractorInt32BE (initial_parser 0 8) [0,0,0,4, 0,0,0,0, 9] = Some r)
   \<and> validateMessageSize defaultedInt32BE 0
   \<and> extractMessageSize_at defaultedInt32BE [0,0,0,4, 0,0,0,0, 9] 4 = Inr 0
   \<and> whileBody defaultedInt32BE [0,0,0,4, 0,0,0,0, 9]
         (4, initial_parser 0 8, [EmitMessage [0,0,0,4]])
       = Inr (4, initial_parser 0 8, [EmitMessage [0,0,0,4], EmitMessage []])
   \<and> parseBytes defaultedInt32BE (initial_parser 0 8) [0,0,0,4, 0,0,0,0, 9] = None"
proof -
  let ?bytes = "[0,0,0,4, 0,0,0,0, 9] :: buffer"
  have v: "\<forall>x. validateMessageSize HeaderExtractorInt32BE x \<longrightarrow> 1 \<le> x"
    by (simp add: int32be_defs)
  have w: "whileBody defaultedInt32BE ?bytes (0, initial_parser 0 8, [])
      = Inr (4, initial_parser 0 8, [EmitMessage [0,0,0,4]])"
    by (simp add: defaultedInt32BE_def eval_defs int32be_defs)
  have r: "reach defaultedInt32BE ?bytes
      (0, initial_parser 0 8, []) (4, initial_parser 0 8, [EmitMessage [0,0,0,4]])"
    by (rule reach_step [OF w reach_refl])
  have e: "extractMessageSize_at defaultedInt32BE ?bytes 4 = Inr 0"
    by (simp add: defaultedInt32BE_def eval_defs int32be_defs)
  have h: "headerByteCount defaultedInt32BE = 4" "validateMessageSize defaultedInt32BE 0"
    by (simp_all add: defaultedInt32BE_def int32be_defs)
  have i: "isFinished (initial_parser 0 8)" "\<not> isShutdown (initial_parser 0 8)"
    "reset (initial_parser 0 8) = initial_parser 0 8"
    by (simp_all add: eval_defs)
  from parseBytes_termination [of HeaderExtractorInt32BE "initial_parser 0 8" ?bytes] v
  have 1: "\<exists>r. parseBytes HeaderExtractorInt32BE (initial_parser 0 8) ?bytes = Some r"
    by blast
  from parseBytes_termination [of defaultedInt32BE "initial_parser 0 8" ?bytes 4
      "initial_parser 0 8" "[EmitMessage [0,0,0,4]]"] r e h i
  have 2: "whileBody defaultedInt32BE ?bytes (4, initial_parser 0 8, [EmitMessage [0,0,0,4]])
       = Inr (4, initial_parser 0 8, [EmitMessage [0,0,0,4], EmitMessage []])
     \<and> parseBytes defaultedInt32BE (initial_parser 0 8) ?bytes = None"
    by simp
  from 1 2 e h show ?thesis by simp
qed

text \<open>
  C10, as the specification has it, fails: an extracted size of 0 that is accepted does
  not always keep \<open>parseBytes\<close> from terminating. With the always-true validator and
  a header of 4 bytes, the chunk \<open>[0,0]\<close> is carried over, and the next chunk
  \<open>[0,0,9]\<close> completes the header in the carry-over buffer. The pass of the loop
  that completes it is \<open>_continueUnfinishedMessage\<close>: it extracts the size 0,
  the validator accepts it, and the offset advances by the 2 bytes that completed the
  header, not by 0. The next pass asks \<open>_appendToUnfinishedMessage\<close> for a negative
  count of bytes, and the call ends with the \<open>RangeError\<close> of \<open>copy\<close>.
\<close>

theorem zero_size_after_carried_header_counterexample:
  "validateMessageSize defaultedInt32BE 0
   \<and> parseBytes defaultedInt32BE (initial_parser 0 8) [0,0]
     = Some (Normal True,
             (initial_parser 0 8)\<lparr>unfinishedMessageSize := 2, expectedMessageSize := 4\<rparr>, [])
   \<and> whileBody defaultedInt32BE [0,0,9]
         (0, (initial_parser 0 8)\<lparr>unfinishedMessageSize := 2, expectedMessageSize := 4\<rparr>, [])
     = Inr (2, (initial_parser 0 8)\<lparr>unfinishedMessageSize := 4, expectedMessageSize := 0,
                                      bMessageHeaderExtracted := True\<rparr>, [])
   \<and> extractMessageSize_at defaultedInt32BE
         (unfinishedMessageBuffer
            ((initial_parser 0 8)\<lparr>unfinishedMessageSize := 4, expectedMessageSize := 0,
                                  bMessageHeaderExtracted := True\<rparr>)) 0 = Inr 0
   \<and> parseBytes defaultedInt32BE
         ((initial_parser 0 8)\<lparr>unfinishedMessageSize := 2, expectedMessageSize := 4\<rparr>) [0,0,9]
     = Some (Thrown RangeError,
             (initial_parser 0 8)\<lparr>unfinishedMessageSize := 4, expectedMessageSize := 0,
                                   bMessageHeaderExtracted := True\<rparr>, [])"
  by code_simp

section \<open>A message split across chunks\<close>

lemma append_nat:
  assumes "carry_ok p" "unfinishedMessageSize p = int k" "off + cnt \<le> length data"
  shows "\<exists>p'. appendToUnfinishedMessage p data (int off) (int cnt) = Inr p'
     \<and> unfinishedMessageSize p' = int (k + cnt)
     \<and> carried p' = carried p @ take cnt (drop off data)
     \<and> carry_ok p'
     \<and> length (unfinishedMessageBuffer p') =
         (if length (unfinishedMessageBuffer p) < k + cnt
          then k + cnt else length (unfinishedMessageBuffer p))
     \<and> expectedMessageSize p' = expectedMessageSize p
     \<and> bMessageHeaderExtracted p' = bMessageHeaderExtracted p
     \<and> bShutdown p' = bShutdown p"
proof -
  have "int off + int cnt \<le> int (length data)" using assms(3) by linarith
  from append_props [OF assms(1) _ _ this]
  obtain p' where "appendToUnfinishedMessage p data (int off) (int cnt) = Inr p'"
     "unfinishedMessageSize p' = unfinishedMessageSize p + int cnt"
     "carried p' = carried p @ take (nat (int cnt)) (drop (nat (int off)) data)"
     "carry_ok p'"
     "length (unfinishedMessageBuffer p') =
         (if int (length (unfinishedMessageBuffer p)) - unfinishedMessageSize p < int cnt
          then nat (unfinishedMessageSize p + int cnt) else length (unfinishedMessageBuffer p))"
     "expectedMessageSize p' = expectedMessageSize p"
     "bMessageHeaderExtracted p' = bMessageHeaderExtracted p"
     "bShutdown p' = bShutdown p"
    by auto
  moreover have "(int (length (unfinishedMessageBuffer p)) - int k < int cnt)
      = (length (unfinishedMessageBuffer p) < k + cnt)" by linarith
  moreover have "nat (int k + int cnt) = k + cnt" by simp
  ultimately show ?thesis using assms(2) by (intro exI [of _ p']) simp
qed

lemma cont_partial:
  assumes hold: "holding E M cap k p" and k: "0 < k"
    and c: "drop off c = take a (drop k M)"
    and a: "0 < a" "off + a = length c" "k + a \<le> length M"
    and lt: "k + a < (if k < h then h else length M)"
    and H: "headerByteCount E = int h"
  shows "\<exists>p'. whileBody E c (int off, p, q) = Inr (int (length c), p', q)
           \<and> holding E M cap (k + a) p'"
proof -
  from hold have u: "unfinishedMessageSize p = int k" and ok: "carry_ok p"
    and car: "carried p = take k M"
    and cap: "length (unfinishedMessageBuffer p) \<le> max cap k"
    and sh: "\<not> bShutdown p"
    and ph: "if k < h then \<not> bMessageHeaderExtracted p \<and> expectedMessageSize p = int h
             else bMessageHeaderExtracted p \<and> expectedMessageSize p = int (length M)"
    by (simp_all add: holding_def H)
  have nf: "\<not> isFinished p" using u k by (simp add: isFinished_def)
  have oa: "off + a \<le> length c" using a by simp
  from append_nat [OF ok u oa]
  obtain p1 where ap: "appendToUnfinishedMessage p c (int off) (int a) = Inr p1"
    and u1: "unfinishedMessageSize p1 = int (k + a)"
    and car1: "carried p1 = carried p @ take a (drop off c)"
    and ok1: "carry_ok p1"
    and len1: "length (unfinishedMessageBuffer p1) =
         (if length (unfinishedMessageBuffer p) < k + a
          then k + a else length (unfinishedMessageBuffer p))"
    and f1: "expectedMessageSize p1 = expectedMessageSize p"
            "bMessageHeaderExtracted p1 = bMessageHeaderExtracted p"
            "bShutdown p1 = bShutdown p"
    by blast
  have avail: "int (length c) - int off = int a" using a by linarith
  have miss: "int a < expectedMessageSize p - unfinishedMessageSize p"
    using ph lt u by (auto split: if_splits)
  have cont: "continueUnfinishedMessage E p c (int off) = (Normal (int a), p1, [])"
    using miss avail ap by (simp add: continueUnfinishedMessage_def Let_def)
  have wb: "whileBody E c (int off, p, q) = Inr (int (length c), p1, q)"
    using cont nf a by (simp add: whileBody_def)
  have "carried p1 = take (k + a) M"
    using car1 car c by (simp add: take_add)
  moreover have "length (unfinishedMessageBuffer p1) \<le> max cap (k + a)"
    using len1 cap by (auto split: if_splits)
  moreover have "if int (k + a) < headerByteCount E
             then \<not> bMessageHeaderExtracted p1 \<and> expectedMessageSize p1 = headerByteCount E
             else bMessageHeaderExtracted p1 \<and> expectedMessageSize p1 = int (length M)"
    using ph lt f1 by (auto simp: H split: if_splits)
  ultimately have "holding E M cap (k + a) p1"
    using u1 ok1 sh f1(3) unfolding holding_def by blast
  with wb show ?thesis by blast
qed

lemma slice_header:
  assumes "carry_ok p" "unfinishedMessageSize p = int h"
  shows "buffer_slice (unfinishedMessageBuffer p) 0 (0 + int h) = carried p"
  using assms by (simp add: buffer_slice_nonneg carried_def)

lemma cont_header:
  assumes hold: "holding E M cap k p" and k: "0 < k" "k < h"
    and c: "drop off c = take a (drop k M)"
    and a: "off + a = length c" "h - k \<le> a" "k + a \<le> length M"
    and v: "valid_message E M"
    and H: "headerByteCount E = int h"
  shows "\<exists>p'. whileBody E c (int off, p, q) = Inr (int (off + (h - k)), p', q)
           \<and> holding E M cap h p'"
proof -
  from hold k have u: "unfinishedMessageSize p = int k" and ok: "carry_ok p"
    and car: "carried p = take k M"
    and cap: "length (unfinishedMessageBuffer p) \<le> max cap k"
    and sh: "\<not> bShutdown p"
    and ph: "\<not> bMessageHeaderExtracted p" "expectedMessageSize p = int h"
    by (simp_all add: holding_def H)
  have nf: "\<not> isFinished p" using u k by (simp add: isFinished_def)
  have oa: "off + (h - k) \<le> length c" using a by simp
  from append_nat [OF ok u oa]
  obtain p1 where ap: "appendToUnfinishedMessage p c (int off) (int (h - k)) = Inr p1"
    and u1: "unfinishedMessageSize p1 = int (k + (h - k))"
    and car1: "carried p1 = carried p @ take (h - k) (drop off c)"
    and ok1: "carry_ok p1"
    and len1: "length (unfinishedMessageBuffer p1) =
         (if length (unfinishedMessageBuffer p) < k + (h - k)
          then k + (h - k) else length (unfinishedMessageBuffer p))"
    and f1: "expectedMessageSize p1 = expectedMessageSize p"
            "bMessageHeaderExtracted p1 = bMessageHeaderExtracted p"
            "bShutdown p1 = bShutdown p"
    by blast
  have u1': "unfinishedMessageSize p1 = int h" using u1 k by simp
  have "take (h - k) (drop off c) = take (h - k) (drop k M)"
    using c a by (simp add: min_def)
  then have carh: "carried p1 = take h M"
    using car1 car k by (simp add: take_add [symmetric])
  have ex: "extractMessageSize_at E (unfinishedMessageBuffer p1) 0 = Inr (int (length M))"
    using slice_header [OF ok1 u1'] carh v
    by (simp add: extractMessageSize_at_def Let_def H valid_message_def)
  have val: "validateMessageSize E (int (length M))" using v by (simp add: valid_message_def)
  let ?p2 = "p1\<lparr>expectedMessageSize := int (length M), bMessageHeaderExtracted := True\<rparr>"
  have avail: "int (length c) - int off = int a" using a by linarith
  have miss: "\<not> int a < expectedMessageSize p - unfinishedMessageSize p"
    using ph u a k by simp
  have md: "expectedMessageSize p - unfinishedMessageSize p = int (h - k)"
    using ph u k by simp
  have cont: "continueUnfinishedMessage E p c (int off) = (Normal (int (h - k)), ?p2, [])"
    using miss avail ap ex val ph f1 md
    by (simp add: continueUnfinishedMessage_def Let_def)
  have lt: "int off < int (length c)" using a k by linarith
  have wb: "whileBody E c (int off, p, q) = Inr (int (off + (h - k)), ?p2, q)"
    using cont nf lt by (simp add: whileBody_def)
  have "carried ?p2 = take h M" using carh by (simp add: carried_def)
  moreover have "carry_ok ?p2" using ok1 by (simp add: carry_ok_def)
  moreover have "length (unfinishedMessageBuffer ?p2) \<le> max cap h"
    using len1 cap k by (auto split: if_splits)
  ultimately have "holding E M cap h ?p2"
    using u1' sh f1 by (simp add: holding_def H)
  with wb show ?thesis by blast
qed

lemma cont_emit:
  assumes hold: "holding E M cap k p" and k: "h \<le> k" "k < length M" "0 < h"
    and c: "drop off c = drop k M"
    and H: "headerByteCount E = int h"
  shows "\<exists>p'. whileBody E c (int off, p, q) = Inr (int (length c), p', q @ [EmitMessage M])
           \<and> isFinished p' \<and> \<not> bShutdown p'
           \<and> length M \<le> length (unfinishedMessageBuffer p')
           \<and> length (unfinishedMessageBuffer p') \<le> max cap (length M)"
proof -
  let ?n = "length M"
  from hold k have u: "unfinishedMessageSize p = int k" and ok: "carry_ok p"
    and car: "carried p = take k M"
    and cap: "length (unfinishedMessageBuffer p) \<le> max cap k"
    and sh: "\<not> bShutdown p"
    and ph: "bMessageHeaderExtracted p" "expectedMessageSize p = int ?n"
    by (simp_all add: holding_def H)
  from c have lc: "length c - off = ?n - k" by (metis length_drop)
  with k have off: "off < length c" by linarith
  have oa: "off + (?n - k) \<le> length c" using lc off by linarith
  from append_nat [OF ok u oa]
  obtain p1 where ap: "appendToUnfinishedMessage p c (int off) (int (?n - k)) = Inr p1"
    and u1: "unfinishedMessageSize p1 = int (k + (?n - k))"
    and car1: "carried p1 = carried p @ take (?n - k) (drop off c)"
    and ok1: "carry_ok p1"
    and len1: "length (unfinishedMessageBuffer p1) =
         (if length (unfinishedMessageBuffer p) < k + (?n - k)
          then k + (?n - k) else length (unfinishedMessageBuffer p))"
    and f1: "expectedMessageSize p1 = expectedMessageSize p"
            "bMessageHeaderExtracted p1 = bMessageHeaderExtracted p"
            "bShutdown p1 = bShutdown p"
    by blast
  have u1': "unfinishedMessageSize p1 = int ?n" using u1 k by simp
  have carM: "carried p1 = M" using car1 car c by simp
  have len: "?n \<le> length (unfinishedMessageBuffer p1)"
    using ok1 u1' by (simp add: carry_ok_def)
  have "notifyMessageReceived p1 (unfinishedMessageBuffer p1) 0 (int ?n)
      = (Normal (), reset p1, [EmitMessage (take (nat (int ?n)) (drop (nat 0) (unfinishedMessageBuffer p1)))])"
    by (rule notify_ok) (use len in simp_all)
  moreover have "take ?n (unfinishedMessageBuffer p1) = M"
    using carM u1' by (simp add: carried_def)
  ultimately have nt: "notifyMessageReceived p1 (unfinishedMessageBuffer p1) 0 (int ?n)
      = (Normal (), reset p1, [EmitMessage M])" by simp
  have avail: "int (length c) - int off = int (?n - k)" using lc off by linarith
  have md: "expectedMessageSize p - unfinishedMessageSize p = int (?n - k)"
    using ph u k by simp
  have cont: "continueUnfinishedMessage E p c (int off) = (Normal (int (?n - k)), reset p1, [EmitMessage M])"
    using avail ap ph f1 md nt
    by (simp add: continueUnfinishedMessage_def Let_def)
  have nf: "\<not> isFinished p" using u k by (simp add: isFinished_def)
  have e: "int off + int (?n - k) = int (length c)" using lc off by linarith
  have wb: "whileBody E c (int off, p, q) = Inr (int (length c), reset p1, q @ [EmitMessage M])"
    using cont nf off e k by (simp add: whileBody_def)
  have "length (unfinishedMessageBuffer (reset p1)) \<le> max cap ?n"
    using len1 cap k by (auto simp: reset_def split: if_splits)
  moreover have "?n \<le> length (unfinishedMessageBuffer (reset p1))"
    using len by (simp add: reset_def)
  moreover have "\<not> bShutdown (reset p1)" using sh f1 by (simp add: reset_def)
  ultimately show ?thesis using wb by (intro exI [of _ "reset p1"]) simp
qed

lemma start_partial:
  assumes fin: "isFinished p" and sh: "\<not> bShutdown p"
    and c: "take (length c) M = c" "c \<noteq> []" "length c < length M"
    and v: "valid_message E M"
    and H: "headerByteCount E = int h" "0 < h"
  shows "\<exists>p'. whileBody E c (0, p, q) = Inr (int (length c), p', q)
           \<and> holding E M (length (unfinishedMessageBuffer p)) (length c) p'"
proof -
  let ?a = "length c"
  have u: "unfinishedMessageSize p = int 0" using fin by (simp add: isFinished_def)
  then have ok: "carry_ok p" by (simp add: carry_ok_def)
  have car: "carried p = []" using u by (simp add: carried_def)
  have oa: "0 + ?a \<le> length c" by simp
  from append_nat [OF ok u oa]
  obtain p1 where ap: "appendToUnfinishedMessage p c (int 0) (int ?a) = Inr p1"
    and u1: "unfinishedMessageSize p1 = int (0 + ?a)"
    and car1: "carried p1 = carried p @ take ?a (drop 0 c)"
    and ok1: "carry_ok p1"
    and len1: "length (unfinishedMessageBuffer p1) =
         (if length (unfinishedMessageBuffer p) < 0 + ?a
          then 0 + ?a else length (unfinishedMessageBuffer p))"
    and f1: "expectedMessageSize p1 = expectedMessageSize p"
            "bMessageHeaderExtracted p1 = bMessageHeaderExtracted p"
            "bShutdown p1 = bShutdown p"
    by blast
  have pos: "0 < ?a" using c(2) by simp
  have carc: "carried p1 = take ?a M" using car1 car c(1) by simp
  have cap1: "length (unfinishedMessageBuffer p1) \<le> max (length (unfinishedMessageBuffer p)) ?a"
    using len1 by (auto split: if_splits)
  show ?thesis
  proof (cases "?a < h")
    case True
    let ?p' = "p1\<lparr>expectedMessageSize := headerByteCount E, bMessageHeaderExtracted := False\<rparr>"
    have st: "startNewMessage E p c 0 = (Normal (int ?a), ?p', [])"
      using True ap by (simp add: startNewMessage_def Let_def H)
    have wb: "whileBody E c (0, p, q) = Inr (int ?a, ?p', q)"
      using st fin pos by (simp add: whileBody_def)
    have "carried ?p' = take ?a M" using carc by (simp add: carried_def)
    moreover have "carry_ok ?p'" using ok1 by (simp add: carry_ok_def)
    ultimately have "holding E M (length (unfinishedMessageBuffer p)) ?a ?p'"
      using u1 cap1 sh f1(3) True by (simp add: holding_def H)
    with wb show ?thesis by blast
  next
    case False
    let ?p' = "p1\<lparr>expectedMessageSize := int (length M), bMessageHeaderExtracted := True\<rparr>"
    have dr: "drop 0 c = c @ []" by simp
    have hc: "headerByteCount E \<le> int (length c)" using False H by simp
    have "take h (take (length c) M) = take h M" using False by (simp add: min_def)
    then have "take h c = take h M" by (simp only: c(1))
    then have ex: "extractMessageSize_at E c 0 = Inr (int (length M))"
      using extract_at_prefix [OF _ dr hc] v H by (simp add: valid_message_def)
    have val: "validateMessageSize E (int (length M))" using v by (simp add: valid_message_def)
    have st: "startNewMessage E p c 0 = (Normal (int ?a), ?p', [])"
      using False ap ex val c(3) by (simp add: startNewMessage_def Let_def H)
    have wb: "whileBody E c (0, p, q) = Inr (int ?a, ?p', q)"
      using st fin pos by (simp add: whileBody_def)
    have "carried ?p' = take ?a M" using carc by (simp add: carried_def)
    moreover have "carry_ok ?p'" using ok1 by (simp add: carry_ok_def)
    ultimately have "holding E M (length (unfinishedMessageBuffer p)) ?a ?p'"
      using u1 cap1 sh f1(3) False by (simp add: holding_def H)
    with wb show ?thesis by blast
  qed
qed

text \<open>What one chunk does to a parser that holds the first \<open>k\<close> bytes of \<open>M\<close>.\<close>

lemma drain_exit: "drain E c (int (length c), p, q) = Some (Normal True, p, q)"
  by (simp add: drain_Inl whileBody_exit)

lemma chunk_body:
  assumes hold: "holding E M cap k p" and k: "h \<le> k" "k < length M"
    and c: "drop off c = take (length c - off) (drop k M)" "off < length c"
           "k + (length c - off) \<le> length M"
    and H: "headerByteCount E = int h" "0 < h"
  shows "\<exists>p'. drain E c (int off, p, q) =
           Some (Normal True, p', q @ (if k + (length c - off) = length M then [EmitMessage M] else []))
         \<and> (if k + (length c - off) = length M
            then isFinished p' \<and> \<not> bShutdown p'
                 \<and> length M \<le> length (unfinishedMessageBuffer p')
                 \<and> length (unfinishedMessageBuffer p') \<le> max cap (length M)
            else holding E M cap (k + (length c - off)) p')"
proof (cases "k + (length c - off) = length M")
  case True
  then have "drop off c = drop k M" using c(1) by simp
  from cont_emit [OF hold k H(2) this H(1), of q]
  obtain p' where wb: "whileBody E c (int off, p, q) = Inr (int (length c), p', q @ [EmitMessage M])"
    and r: "isFinished p'" "\<not> bShutdown p'" "length M \<le> length (unfinishedMessageBuffer p')"
      "length (unfinishedMessageBuffer p') \<le> max cap (length M)" by blast
  from drain_Inr [OF wb] have "drain E c (int off, p, q) = Some (Normal True, p', q @ [EmitMessage M])"
    by (simp add: drain_exit)
  with True r show ?thesis by auto
next
  case False
  let ?a = "length c - off"
  have kpos: "0 < k" using k H(2) by simp
  have a: "0 < ?a" "off + ?a = length c" using c(2) by simp_all
  have lt: "k + ?a < (if k < h then h else length M)" using k c(3) False by simp
  from cont_partial [OF hold kpos c(1) a c(3) lt H(1), of q]
  obtain p' where wb: "whileBody E c (int off, p, q) = Inr (int (length c), p', q)"
    and r: "holding E M cap (k + ?a) p'" by blast
  from drain_Inr [OF wb] have "drain E c (int off, p, q) = Some (Normal True, p', q)"
    by (simp add: drain_exit)
  with False r show ?thesis by auto
qed

lemma chunk_header:
  assumes hold: "holding E M cap k p" and k: "0 < k" "k < h"
    and c: "take (length c) (drop k M) = c" "c \<noteq> []" "k + length c \<le> length M"
    and v: "valid_message E M"
    and H: "headerByteCount E = int h"
  shows "\<exists>p'. drain E c (0, p, q) =
           Some (Normal True, p', q @ (if k + length c = length M \<and> h < length M then [EmitMessage M] else []))
         \<and> (if k + length c = length M \<and> h < length M
            then isFinished p' \<and> \<not> bShutdown p'
                 \<and> length M \<le> length (unfinishedMessageBuffer p')
                 \<and> length (unfinishedMessageBuffer p') \<le> max cap (length M)
            else holding E M cap (k + length c) p')"
proof -
  have hn: "h \<le> length M" using v H by (simp add: valid_message_def)
  have pos: "0 < length c" using c(2) by simp
  have dc: "drop 0 c = take (length c) (drop k M)" using c(1) by simp
  show ?thesis
  proof (cases "k + length c < h")
    case True
    have lt: "k + length c < (if k < h then h else length M)" using True k by simp
    from cont_partial [OF hold k(1) dc pos _ c(3) lt H, of q]
    obtain p' where wb: "whileBody E c (int 0, p, q) = Inr (int (length c), p', q)"
      and r: "holding E M cap (k + length c) p'" by auto
    from drain_Inr [OF wb] have "drain E c (0, p, q) = Some (Normal True, p', q)"
      by (simp add: drain_exit)
    with True r hn show ?thesis by auto
  next
    case False
    then have ge: "h - k \<le> length c" by simp
    from cont_header [OF hold k dc _ ge c(3) v H, of q]
    obtain p1 where wb: "whileBody E c (int 0, p, q) = Inr (int (0 + (h - k)), p1, q)"
      and h1: "holding E M cap h p1" by auto
    have d1: "drain E c (0, p, q) = drain E c (int (h - k), p1, q)"
      using drain_Inr [OF wb] by simp
    show ?thesis
    proof (cases "h - k = length c")
      case True
      then have e: "k + length c = h" using k by simp
      from d1 True have "drain E c (0, p, q) = Some (Normal True, p1, q)"
        by (simp add: drain_exit)
      with h1 e show ?thesis by auto
    next
      case ne: False
      with ge have lt: "h - k < length c" by simp
      then have hlt: "h < length M" using c(3) k by linarith
      have "drop (h - k) (take (length c) (drop k M))
          = take (length c - (h - k)) (drop (h - k) (drop k M))"
        by (simp only: drop_take)
      then have "drop (h - k) c = take (length c - (h - k)) (drop (h - k) (drop k M))"
        by (simp only: c(1))
      then have dc': "drop (h - k) c = take (length c - (h - k)) (drop h M)"
        using k by simp
      have le: "h + (length c - (h - k)) \<le> length M" using c(3) k lt by linarith
      from chunk_body [OF h1 order_refl hlt dc' lt le H _, of q] hn k
      obtain p' where
        d2: "drain E c (int (h - k), p1, q) =
           Some (Normal True, p', q @ (if h + (length c - (h - k)) = length M then [EmitMessage M] else []))"
        and r: "if h + (length c - (h - k)) = length M
            then isFinished p' \<and> \<not> bShutdown p'
                 \<and> length M \<le> length (unfinishedMessageBuffer p')
                 \<and> length (unfinishedMessageBuffer p') \<le> max cap (length M)
            else holding E M cap (h + (length c - (h - k))) p'"
        by auto
      have e: "h + (length c - (h - k)) = k + length c" using k lt by linarith
      note d2' = d2 [unfolded e] and r' = r [unfolded e]
      from d1 d2' have "drain E c (0, p, q) =
           Some (Normal True, p', q @ (if k + length c = length M then [EmitMessage M] else []))"
        by simp
      with r' hlt show ?thesis by (intro exI [of _ p']) simp
    qed
  qed
qed

lemma chunk_from_holding:
  assumes hold: "holding E M cap k p" and k: "0 < k" "k < length M"
    and c: "take (length c) (drop k M) = c" "c \<noteq> []" "k + length c \<le> length M"
    and v: "valid_message E M"
    and H: "headerByteCount E = int h" "0 < h"
  shows "\<exists>p'. parseBytes E p c =
           Some (Normal True, p', (if k + length c = length M \<and> h < length M then [EmitMessage M] else []))
         \<and> (if k + length c = length M \<and> h < length M
            then isFinished p' \<and> \<not> bShutdown p'
                 \<and> length M \<le> length (unfinishedMessageBuffer p')
                 \<and> length (unfinishedMessageBuffer p') \<le> max cap (length M)
            else holding E M cap (k + length c) p')"
proof -
  from hold have pb: "parseBytes E p c = drain E c (0, p, [])"
    by (simp add: parseBytes_def isShutdown_def holding_def)
  show ?thesis
  proof (cases "k < h")
    case True
    from chunk_header [OF hold k(1) True c v H(1), of "[]"] pb show ?thesis by simp
  next
    case False
    then have hk: "h \<le> k" by simp
    with k have hn: "h < length M" by simp
    have dc: "drop 0 c = take (length c - 0) (drop k M)" using c(1) by simp
    have pos: "0 < length c" using c(2) by simp
    from chunk_body [OF hold hk k(2) dc pos _ H, of "[]"] c(3) pb hn show ?thesis by auto
  qed
qed

lemma chunk_from_idle:
  assumes fin: "isFinished p" and sh: "\<not> bShutdown p"
    and c: "take (length c) M = c" "c \<noteq> []"
    and v: "valid_message E M"
    and H: "headerByteCount E = int h" "0 < h"
  shows "\<exists>p'. parseBytes E p c =
           Some (Normal True, p', (if length c = length M then [EmitMessage M] else []))
         \<and> (if length c = length M
            then isFinished p' \<and> \<not> bShutdown p'
                 \<and> unfinishedMessageBuffer p' = unfinishedMessageBuffer p
            else holding E M (length (unfinishedMessageBuffer p)) (length c) p')"
proof -
  from sh have pb: "parseBytes E p c = drain E c (0, p, [])"
    by (simp add: parseBytes_def isShutdown_def)
  have "length (take (length c) M) = length c" by (simp only: c(1))
  then have le: "length c \<le> length M" by simp
  show ?thesis
  proof (cases "length c = length M")
    case True
    with c(1) have cM: "c = M" by simp
    have dr: "drop 0 c = M @ []" using cM by simp
    have hp: "0 < headerByteCount E" using H by simp
    have pos: "0 < length c" using c(2) by simp
    from startNewMessage_whole [OF hp v dr, of p]
    have "whileBody E c (0, p, []) = Inr (int (length c), reset p, [EmitMessage M])"
      using fin pos cM by (simp add: whileBody_def)
    from drain_Inr [OF this] have "drain E c (0, p, []) = Some (Normal True, reset p, [EmitMessage M])"
      by (simp add: drain_exit)
    with pb True sh show ?thesis
      by (intro exI [of _ "reset p"]) (simp add: reset_def isFinished_def)
  next
    case False
    with le have lt: "length c < length M" by simp
    from start_partial [OF fin sh c lt v H, of "[]"]
    obtain p' where wb: "whileBody E c (0, p, []) = Inr (int (length c), p', [])"
      and r: "holding E M (length (unfinishedMessageBuffer p)) (length c) p'" by blast
    from drain_Inr [OF wb] have "drain E c (0, p, []) = Some (Normal True, p', [])"
      by (simp add: drain_exit)
    with pb False r show ?thesis by auto
  qed
qed

lemma chunks_from_holding:
  assumes v: "valid_message E M" and H: "headerByteCount E = int h" "0 < h"
  shows "holding E M cap k p \<Longrightarrow> 0 < k \<Longrightarrow> k < length M \<Longrightarrow> chunks \<noteq> [] \<Longrightarrow>
     \<forall>c\<in>set chunks. c \<noteq> [] \<Longrightarrow> concat chunks = drop k M \<Longrightarrow>
     \<exists>p'. (parseChunks E p chunks = Some (p', [EmitMessage M]) \<and> h < length M
            \<and> isFinished p' \<and> \<not> bShutdown p'
            \<and> length M \<le> length (unfinishedMessageBuffer p')
            \<and> length (unfinishedMessageBuffer p') \<le> max cap (length M))
         \<or> (parseChunks E p chunks = Some (p', []) \<and> length M = h
            \<and> holding E M cap (length M) p')"
proof (induction chunks arbitrary: k p)
  case Nil
  then show ?case by simp
next
  case (Cons c cs)
  have hn: "h \<le> length M" using v H by (simp add: valid_message_def)
  from Cons.prems have cne: "c \<noteq> []" and cat: "c @ concat cs = drop k M" by simp_all
  from cat have "take (length c) (drop k M) = take (length c) (c @ concat cs)" by simp
  then have tk: "take (length c) (drop k M) = c" by simp
  from cat have "length c + length (concat cs) = length M - k"
    by (metis length_append length_drop)
  then have tot: "k + length c + length (concat cs) = length M" using Cons.prems(3) by linarith
  then have le: "k + length c \<le> length M" by linarith
  from chunk_from_holding [OF Cons.prems(1,2,3) tk cne le v H]
  obtain p1 where
    pb: "parseBytes E p c =
           Some (Normal True, p1, (if k + length c = length M \<and> h < length M then [EmitMessage M] else []))"
    and r: "if k + length c = length M \<and> h < length M
            then isFinished p1 \<and> \<not> bShutdown p1
                 \<and> length M \<le> length (unfinishedMessageBuffer p1)
                 \<and> length (unfinishedMessageBuffer p1) \<le> max cap (length M)
            else holding E M cap (k + length c) p1"
    by blast
  show ?case
  proof (cases "k + length c = length M")
    case True
    with tot have "concat cs = []" by simp
    with Cons.prems(5) have cs: "cs = []" by (cases cs) auto
    show ?thesis
    proof (cases "h < length M")
      case True
      with \<open>k + length c = length M\<close> pb r cs show ?thesis by (intro exI [of _ p1]) simp
    next
      case False
      with hn have "length M = h" by simp
      with \<open>k + length c = length M\<close> pb r cs False show ?thesis by (intro exI [of _ p1]) simp
    qed
  next
    case False
    with le have lt: "k + length c < length M" by simp
    from False pb r have pb': "parseBytes E p c = Some (Normal True, p1, [])"
      and h1: "holding E M cap (k + length c) p1" by simp_all
    have cat': "concat cs = drop (k + length c) M"
      using cat by (metis append_eq_conv_conj drop_drop add.commute)
    with lt have csne: "cs \<noteq> []" by auto
    have kpos: "0 < k + length c" using Cons.prems(2) by simp
    from Cons.IH [OF h1 kpos lt csne _ cat'] Cons.prems(5)
    obtain p' where
      "(parseChunks E p1 cs = Some (p', [EmitMessage M]) \<and> h < length M
            \<and> isFinished p' \<and> \<not> bShutdown p'
            \<and> length M \<le> length (unfinishedMessageBuffer p')
            \<and> length (unfinishedMessageBuffer p') \<le> max cap (length M))
         \<or> (parseChunks E p1 cs = Some (p', []) \<and> length M = h
            \<and> holding E M cap (length M) p')" by auto
    with pb' show ?thesis by (intro exI [of _ p']) auto
  qed
qed

lemma chunked_message:
  assumes v: "valid_message E M" and H: "headerByteCount E = int h" "0 < h"
    and fin: "isFinished p" and sh: "\<not> isShutdown p"
    and chunks: "\<forall>c\<in>set chunks. c \<noteq> []" "concat chunks = M"
  shows "\<exists>p'. (parseChunks E p chunks = Some (p', [EmitMessage M])
            \<and> isFinished p' \<and> \<not> bShutdown p'
            \<and> (if length chunks = 1 then unfinishedMessageBuffer p' = unfinishedMessageBuffer p
                else length M \<le> length (unfinishedMessageBuffer p')
                   \<and> length (unfinishedMessageBuffer p')
                       \<le> max (length (unfinishedMessageBuffer p)) (length M)))
         \<or> (parseChunks E p chunks = Some (p', []) \<and> length M = h \<and> 2 \<le> length chunks
            \<and> holding E M (length (unfinishedMessageBuffer p)) (length M) p')"
proof -
  have hn: "h \<le> length M" using v H by (simp add: valid_message_def)
  with H(2) have Mne: "M \<noteq> []" by auto
  with chunks(2) obtain c cs where cc: "chunks = c # cs" by (cases chunks) auto
  with chunks have cne: "c \<noteq> []" and cat: "c @ concat cs = M" by simp_all
  from cat have "take (length c) M = take (length c) (c @ concat cs)" by simp
  then have tk: "take (length c) M = c" by simp
  from sh have sh': "\<not> bShutdown p" by (simp add: isShutdown_def)
  from chunk_from_idle [OF fin sh' tk cne v H]
  obtain p1 where
    pb: "parseBytes E p c = Some (Normal True, p1, (if length c = length M then [EmitMessage M] else []))"
    and r: "if length c = length M
            then isFinished p1 \<and> \<not> bShutdown p1
                 \<and> unfinishedMessageBuffer p1 = unfinishedMessageBuffer p
            else holding E M (length (unfinishedMessageBuffer p)) (length c) p1"
    by blast
  from cat have tot: "length c + length (concat cs) = length M" by (metis length_append)
  show ?thesis
  proof (cases "length c = length M")
    case True
    with tot have "concat cs = []" by simp
    with chunks(1) cc have cs: "cs = []" by (cases cs) auto
    with True pb r cc show ?thesis by (intro exI [of _ p1]) simp
  next
    case False
    with tot have lt: "length c < length M" by linarith
    from False pb r have pb': "parseBytes E p c = Some (Normal True, p1, [])"
      and h1: "holding E M (length (unfinishedMessageBuffer p)) (length c) p1" by simp_all
    have cat': "concat cs = drop (length c) M" using cat by (metis append_eq_conv_conj)
    with lt have csne: "cs \<noteq> []" by auto
    then have two: "2 \<le> length chunks" using cc by (cases cs) auto
    have kpos: "0 < length c" using cne by simp
    from chunks_from_holding [OF v H h1 kpos lt csne _ cat'] chunks(1) cc
    obtain p' where
      "(parseChunks E p1 cs = Some (p', [EmitMessage M]) \<and> h < length M
            \<and> isFinished p' \<and> \<not> bShutdown p'
            \<and> length M \<le> length (unfinishedMessageBuffer p')
            \<and> length (unfinishedMessageBuffer p') \<le> max (length (unfinishedMessageBuffer p)) (length M))
         \<or> (parseChunks E p1 cs = Some (p', []) \<and> length M = h
            \<and> holding E M (length (unfinishedMessageBuffer p)) (length M) p')" by auto
    with pb' cc two csne show ?thesis by (intro exI [of _ p']) auto
  qed
qed

lemma chunked_message_longer_than_header:
  assumes v: "valid_message E M" and H: "headerByteCount E = int h" "0 < h" "h < length M"
    and fin: "isFinished p" and sh: "\<not> isShutdown p"
    and chunks: "\<forall>c\<in>set chunks. c \<noteq> []" "concat chunks = M"
  shows "\<exists>p'. parseChunks E p chunks = Some (p', [EmitMessage M])
           \<and> isFinished p' \<and> \<not> isShutdown p'"
  using chunked_message [OF v H(1,2) fin sh chunks] H(3)
  by (auto simp: isShutdown_def)

lemma chunked_message_grows:
  assumes v: "valid_message E M" and H: "headerByteCount E = int h" "0 < h" "h < length M"
    and fin: "isFinished p" and sh: "\<not> isShutdown p"
    and chunks: "\<forall>c\<in>set chunks. c \<noteq> []" "concat chunks = M" "2 \<le> length chunks"
    and cap: "length (unfinishedMessageBuffer p) < length M"
  shows "\<exists>p'. parseChunks E p chunks = Some (p', [EmitMessage M])
           \<and> length (unfinishedMessageBuffer p') = length M"
  using chunked_message [OF v H(1,2) fin sh chunks(1,2)] H(3) chunks(3) cap
  by (auto simp: max_def split: if_splits)

lemma append_reallocates_exactly:
  assumes "carry_ok p" "0 \<le> off" "0 \<le> cnt" "off + cnt \<le> int (length data)"
    and "int (length (unfinishedMessageBuffer p)) - unfinishedMessageSize p < cnt"
  shows "\<exists>p'. appendToUnfinishedMessage p data off cnt = Inr p'
     \<and> int (length (unfinishedMessageBuffer p')) = unfinishedMessageSize p + cnt
     \<and> unfinishedMessageBuffer p' = carried p @ take (nat cnt) (drop (nat off) data)"
proof -
  have "length (carried p) = nat (unfinishedMessageSize p)"
    using assms(1) by (simp add: carried_def carry_ok_def min_def) linarith
  moreover have "length (take (nat cnt) (drop (nat off) data)) = nat cnt"
    using assms by simp
  ultimately show ?thesis
    using assms by (simp add: append_ok [OF assms(1-4)] carry_ok_def)
qed

lemma held_message_emitted_by_next_chunk:
  assumes hold: "holding E M cap (length M) p" and H: "headerByteCount E = int (length M)"
    and c: "c \<noteq> []" and M: "M \<noteq> []"
  shows "\<exists>p'. whileBody E c (0, p, []) = Inr (0, p', [EmitMessage M]) \<and> isFinished p'
           \<and> parseBytes E p c = drain E c (0, p', [EmitMessage M])"
proof -
  let ?n = "length M"
  from hold have u: "unfinishedMessageSize p = int ?n" and ok: "carry_ok p"
    and car: "carried p = M"
    and sh: "\<not> bShutdown p"
    and ph: "bMessageHeaderExtracted p" "expectedMessageSize p = int ?n"
    by (simp_all add: holding_def H)
  have nf: "\<not> isFinished p" using u M by (simp add: isFinished_def)
  have oa: "0 + 0 \<le> length c" by simp
  from append_nat [OF ok u oa]
  obtain p1 where ap: "appendToUnfinishedMessage p c (int 0) (int 0) = Inr p1"
    and u1: "unfinishedMessageSize p1 = int (?n + 0)"
    and car1: "carried p1 = carried p @ take 0 (drop 0 c)"
    and ok1: "carry_ok p1"
    and f1: "expectedMessageSize p1 = expectedMessageSize p"
            "bMessageHeaderExtracted p1 = bMessageHeaderExtracted p"
            "bShutdown p1 = bShutdown p"
    by blast
  have len: "?n \<le> length (unfinishedMessageBuffer p1)"
    using ok1 u1 by (simp add: carry_ok_def)
  have "notifyMessageReceived p1 (unfinishedMessageBuffer p1) 0 (int ?n)
      = (Normal (), reset p1,
         [EmitMessage (take (nat (int ?n)) (drop (nat 0) (unfinishedMessageBuffer p1)))])"
    by (rule notify_ok) (use len in simp_all)
  moreover have "take ?n (unfinishedMessageBuffer p1) = M"
    using car1 car u1 by (simp add: carried_def)
  ultimately have nt: "notifyMessageReceived p1 (unfinishedMessageBuffer p1) 0 (int ?n)
      = (Normal (), reset p1, [EmitMessage M])" by simp
  have cont: "continueUnfinishedMessage E p c 0 = (Normal 0, reset p1, [EmitMessage M])"
    using ap ph f1 u nt c by (simp add: continueUnfinishedMessage_def Let_def)
  have wb: "whileBody E c (0, p, []) = Inr (0, reset p1, [EmitMessage M])"
    using cont c nf by (simp add: whileBody_def)
  from drain_Inr [OF wb] sh wb show ?thesis
    by (intro exI [of _ "reset p1"]) (simp add: parseBytes_def isShutdown_def)
qed

section \<open>A message that is only a header\<close>

lemma replicate_4: "replicate 4 x = [x, x, x, x]"
  by (simp add: eval_nat_numeral)

text \<open>
  C1 fails on the code. The four bytes \<open>0,0,0,4\<close> are a valid message of Int32BE
  (a header that declares the size 4). Fed in one chunk, the message is scheduled at
  once by \<open>_startNewMessage\<close>. Fed as the chunks \<open>0,0\<close> and \<open>0,4\<close>, no
  closure is scheduled at all: \<open>_continueUnfinishedMessage\<close> completes the header,
  records the size and returns without looking whether the message is complete
  already; the parser is left holding the four bytes with nothing missing.
\<close>

theorem header_only_message_split_is_held_back:
  "valid_message HeaderExtractorInt32BE [0,0,0,4]
   \<and> parseChunks HeaderExtractorInt32BE (initial_parser 0 8) [[0,0,0,4]]
       = Some (initial_parser 0 8, [EmitMessage [0,0,0,4]])
   \<and> parseChunks HeaderExtractorInt32BE (initial_parser 0 8) [[0,0],[0,4]]
       = Some ((initial_parser 0 8)\<lparr>unfinishedMessageBuffer := [0,0,0,4,0,0,0,0],
                                     unfinishedMessageSize := 4,
                                     expectedMessageSize := 4,
                                     bMessageHeaderExtracted := True\<rparr>, [])"
  by (simp add: valid_message_def parseBytes_def drain.simps eval_defs int32be_defs
                replicate_4)

text \<open>
  C6 fails on the code at the same kind of message, by the same omission. With an
  initial buffer of 2 bytes the chunks \<open>0,0\<close> and \<open>0,4\<close> make the buffer grow, to
  exactly the 2 bytes carried plus the 2 bytes appended, and the buffer then holds the
  message bit for bit; but no message is scheduled.
\<close>

theorem grown_buffer_holds_header_only_message:
  "valid_message HeaderExtractorInt32BE [0,0,0,4]
   \<and> length (unfinishedMessageBuffer (initial_parser 0 2)) < length [0,0,0,4::byte]
   \<and> parseChunks HeaderExtractorInt32BE (initial_parser 0 2) [[0,0],[0,4]]
       = Some ((initial_parser 0 2)\<lparr>unfinishedMessageBuffer := [0,0,0,4],
                                     unfinishedMessageSize := 4,
                                     expectedMessageSize := 4,
                                     bMessageHeaderExtracted := True\<rparr>, [])"
  by (simp add: valid_message_def parseBytes_def drain.simps eval_defs int32be_defs)

section \<open>Decoding by the standard extractors\<close>

lemma signed_take_bit_range:
  fixes k :: int
  assumes "0 \<le> k" "k < 2 ^ Suc n"
  shows "signed_take_bit n k = (if k < 2 ^ n then k else k - 2 ^ Suc n)"
proof (cases "k < 2 ^ n")
  case True
  with assms have "(k + 2 ^ n) mod 2 ^ Suc n = k + 2 ^ n"
    by (intro mod_pos_pos_trivial) auto
  with True show ?thesis by (simp add: signed_take_bit_eq_take_bit_shift take_bit_eq_mod)
next
  case False
  let ?x = "k + 2 ^ n - 2 ^ Suc n"
  from False assms have x: "0 \<le> ?x" "?x < 2 ^ Suc n" by auto
  have "(k + 2 ^ n) mod 2 ^ Suc n = (?x + 2 ^ Suc n) mod 2 ^ Suc n" by (simp add: add.commute)
  also have "\<dots> = ?x mod 2 ^ Suc n" by (simp only: mod_add_self2)
  also have "\<dots> = ?x" using x by (intro mod_pos_pos_trivial)
  finally show ?thesis using False
    by (simp add: signed_take_bit_eq_take_bit_shift take_bit_eq_mod)
qed

lemma sint_as_uint:
  fixes w :: "'a::len word"
  shows "sint w = (if uint w < 2 ^ (LENGTH('a) - 1) then uint w else uint w - 2 ^ LENGTH('a))"
proof -
  have "Suc (LENGTH('a) - 1) = LENGTH('a)" by simp
  then show ?thesis
    using signed_take_bit_range [of "uint w" "LENGTH('a) - 1"] uint_lt2p [of w]
    by (simp add: sint_uint)
qed

lemma uint_rcat1: "uint (word_rcat [a::byte] :: 8 word) = uint a"
  by (simp add: word_rcat_def)

lemma uint_rcat2: "uint (word_rcat [a::byte, b] :: 16 word) = uint a * 256 + uint b"
proof -
  let ?k = "uint b + 256 * uint a"
  have "uint a < 256" "uint b < 256" using uint_lt2p [of a] uint_lt2p [of b] by simp_all
  then have k: "0 \<le> ?k" "?k < 65536" by simp_all
  have "(word_rcat [a, b] :: 16 word) = word_of_int ?k"
    by (simp add: word_rcat_def)
  then have "uint (word_rcat [a, b] :: 16 word) = ?k mod 2 ^ LENGTH(16)"
    by (simp only: uint_word_of_int)
  also have "\<dots> = ?k" using k by (intro mod_pos_pos_trivial) simp_all
  finally show ?thesis by simp
qed

lemma uint_rcat4:
  "uint (word_rcat [a::byte, b, c, d] :: 32 word)
     = ((uint a * 256 + uint b) * 256 + uint c) * 256 + uint d"
proof -
  let ?k = "uint d + 256 * (uint c + 256 * (uint b + 256 * uint a))"
  have "uint a < 256" "uint b < 256" "uint c < 256" "uint d < 256"
    using uint_lt2p [of a] uint_lt2p [of b] uint_lt2p [of c] uint_lt2p [of d] by simp_all
  then have k: "0 \<le> ?k" "?k < 4294967296" by simp_all
  have "(word_rcat [a, b, c, d] :: 32 word) = word_of_int ?k"
    by (simp add: word_rcat_def)
  then have "uint (word_rcat [a, b, c, d] :: 32 word) = ?k mod 2 ^ LENGTH(32)"
    by (simp only: uint_word_of_int)
  also have "\<dots> = ?k" using k by (intro mod_pos_pos_trivial) simp_all
  finally show ?thesis by simp
qed

lemma length1: "length xs = Suc 0 \<Longrightarrow> \<exists>a. xs = [a]"
  by (cases xs) auto

lemma length2: "length xs = 2 \<Longrightarrow> \<exists>a b. xs = [a, b]"
  by (cases xs; cases "tl xs") auto

lemma length4: "length xs = 4 \<Longrightarrow> \<exists>a b c d. xs = [a, b, c, d]"
  by (cases xs; cases "tl xs"; cases "tl (tl xs)"; cases "tl (tl (tl xs))") auto

lemmas reader_defs = createPODExtractor_def buffer_method_def read_bytes_def
  fixed_width_integer_def unsigned_value_def sint_as_uint uint_rcat1 uint_rcat2 uint_rcat4

lemma std_Int8: "standard_extractor HeaderExtractorInt8 1 Signed BigEndian"
  unfolding standard_extractor_def HeaderExtractorInt8_def
  by (auto dest!: length1 simp: reader_defs readInt8_def)

lemma std_UInt8: "standard_extractor HeaderExtractorUInt8 1 Unsigned BigEndian"
  unfolding standard_extractor_def HeaderExtractorUInt8_def
  by (auto dest!: length1 simp: reader_defs readUInt8_def)

lemma std_Int16BE: "standard_extractor HeaderExtractorInt16BE 2 Signed BigEndian"
  unfolding standard_extractor_def HeaderExtractorInt16BE_def
  by (auto dest!: length2 simp: reader_defs readInt16BE_def)

lemma std_UInt16BE: "standard_extractor HeaderExtractorUInt16BE 2 Unsigned BigEndian"
  unfolding standard_extractor_def HeaderExtractorUInt16BE_def
  by (auto dest!: length2 simp: reader_defs readUInt16BE_def)

lemma std_Int16LE: "standard_extractor HeaderExtractorInt16LE 2 Signed LittleEndian"
  unfolding standard_extractor_def HeaderExtractorInt16LE_def
  by (auto dest!: length2 simp: reader_defs readInt16LE_def)

lemma std_UInt16LE: "standard_extractor HeaderExtractorUInt16LE 2 Unsigned LittleEndian"
  unfolding standard_extractor_def HeaderExtractorUInt16LE_def
  by (auto dest!: length2 simp: reader_defs readUInt16LE_def)

lemma std_Int32BE: "standard_extractor HeaderExtractorInt32BE 4 Signed BigEndian"
  unfolding standard_extractor_def HeaderExtractorInt32BE_def
  by (auto dest!: length4 simp: reader_defs readInt32BE_def)

lemma std_UInt32BE: "standard_extractor HeaderExtractorUInt32BE 4 Unsigned BigEndian"
  unfolding standard_extractor_def HeaderExtractorUInt32BE_def
  by (auto dest!: length4 simp: reader_defs readUInt32BE_def)

lemma std_Int32LE: "standard_extractor HeaderExtractorInt32LE 4 Signed LittleEndian"
  unfolding standard_extractor_def HeaderExtractorInt32LE_def
  by (auto dest!: length4 simp: reader_defs readInt32LE_def)

lemma std_UInt32LE: "standard_extractor HeaderExtractorUInt32LE 4 Unsigned LittleEndian"
  unfolding standard_extractor_def HeaderExtractorUInt32LE_def
  by (auto dest!: length4 simp: reader_defs readUInt32LE_def)

text \<open>
  C7. Each of the ten standard extractors has the header width of its name (1, 2 or
  4 bytes), extracts from a buffer the integer of that width, signedness and byte
  order that the first bytes of the buffer denote, and accepts a size exactly when it
  is at least the header width.
\<close>

theorem standard_extractors_decode:
  "standard_extractor HeaderExtractorInt8 1 Signed BigEndian
   \<and> standard_extractor HeaderExtractorUInt8 1 Unsigned BigEndian
   \<and> standard_extractor HeaderExtractorInt16BE 2 Signed BigEndian
   \<and> standard_extractor HeaderExtractorUInt16BE 2 Unsigned BigEndian
   \<and> standard_extractor HeaderExtractorInt16LE 2 Signed LittleEndian
   \<and> standard_extractor HeaderExtractorUInt16LE 2 Unsigned LittleEndian
   \<and> standard_extractor HeaderExtractorInt32BE 4 Signed BigEndian
   \<and> standard_extractor HeaderExtractorUInt32BE 4 Unsigned BigEndian
   \<and> standard_extractor HeaderExtractorInt32LE 4 Signed LittleEndian
   \<and> standard_extractor HeaderExtractorUInt32LE 4 Unsigned LittleEndian"
  by (intro conjI std_Int8 std_UInt8 std_Int16BE std_UInt16BE std_Int16LE std_UInt16LE
        std_Int32BE std_UInt32BE std_Int32LE std_UInt32LE)


theorem standard_extractors_decode_witness:
  "extractMessageSize HeaderExtractorInt16LE [254, 255, 7] = Inr (- 2)
   \<and> extractMessageSize HeaderExtractorUInt32BE [0, 0, 1, 2, 9] = Inr 258
   \<and> validateMessageSize HeaderExtractorUInt32BE 4
   \<and> \<not> validateMessageSize HeaderExtractorUInt32BE 3"
proof -
  from standard_extractors_decode
  have a: "standard_extractor HeaderExtractorInt16LE 2 Signed LittleEndian"
    and b: "standard_extractor HeaderExtractorUInt32BE 4 Unsigned BigEndian"
    by simp_all
  from a have e: "\<And>header rest. length header = 2 \<Longrightarrow>
      extractMessageSize HeaderExtractorInt16LE (header @ rest)
        = Inr (fixed_width_integer Signed LittleEndian header)"
    unfolding standard_extractor_def by blast
  from b have f: "\<And>header rest. length header = 4 \<Longrightarrow>
      extractMessageSize HeaderExtractorUInt32BE (header @ rest)
        = Inr (fixed_width_integer Unsigned BigEndian header)"
    and g: "\<And>s. validateMessageSize HeaderExtractorUInt32BE s
        = (headerByteCount HeaderExtractorUInt32BE \<le> s)"
    and w: "headerByteCount HeaderExtractorUInt32BE = 4"
    unfolding standard_extractor_def by simp_all
  from e [of "[254, 255]" "[7]"]
  have "extractMessageSize HeaderExtractorInt16LE [254, 255, 7]
      = Inr (fixed_width_integer Signed LittleEndian [254, 255])" by simp
  moreover from f [of "[0, 0, 1, 2]" "[9]"]
  have "extractMessageSize HeaderExtractorUInt32BE [0, 0, 1, 2, 9]
      = Inr (fixed_width_integer Unsigned BigEndian [0, 0, 1, 2])" by simp
  moreover from g w have "validateMessageSize HeaderExtractorUInt32BE 4"
    "\<not> validateMessageSize HeaderExtractorUInt32BE 3" by simp_all
  ultimately show ?thesis
    by (simp add: fixed_width_integer_def unsigned_value_def)
qed

end
